theory Spec2Isabelle
  imports Complex_Main "HOL-Library.Word" "HOL-Library.Sublist" "HOL-Library.AList"
begin

section \<open>Values, errors and the host runtime\<close>

text \<open>
  JavaScript strings are modelled as \<^typ>\<open>string\<close>, binary buffers (ArrayBuffer, Uint8Array,
  Blob contents) as lists of 8-bit words. A thrown exception is the \<open>Inl\<close> branch of a sum.
  The browser's console is a list of entries, oldest first.
\<close>

type_synonym bytes = "8 word list"

datatype error =
    SecurityError
  | QuotaExceededError
  | SyntaxError
  | TypeError
  | RangeError
  | NotReadableError
  | CodecError
  | ServiceError string
  | Error string

datatype log_entry = ConsoleLog string | ConsoleWarn string | ConsoleError string

subsection \<open>String helpers of the runtime\<close>

definition endsWith :: "string \<Rightarrow> string \<Rightarrow> bool" where
  "endsWith s t = (length t \<le> length s \<and> drop (length s - length t) s = t)"

definition startsWith :: "string \<Rightarrow> string \<Rightarrow> bool" where
  "startsWith s t = (take (length t) s = t)"

text \<open>\<open>toLowerCase\<close> on the ASCII letters; other characters are left as they are.\<close>

definition lowerChar :: "char \<Rightarrow> char" where
  "lowerChar c = (if (65::nat) \<le> of_char c \<and> (of_char c :: nat) \<le> 90
                  then char_of ((of_char c :: nat) + 32) else c)"

definition toLowerCase :: "string \<Rightarrow> string" where
  "toLowerCase s = map lowerChar s"

text \<open>White space removed by \<open>trim\<close>: space, tab, line feed, vertical tab, form feed, carriage return.\<close>

definition isSpace :: "char \<Rightarrow> bool" where
  "isSpace c = ((of_char c :: nat) = 32 \<or> ((9::nat) \<le> of_char c \<and> (of_char c :: nat) \<le> 13))"

definition trim :: "string \<Rightarrow> string" where
  "trim s = rev (dropWhile isSpace (rev (dropWhile isSpace s)))"

fun join :: "string \<Rightarrow> string list \<Rightarrow> string" where
  "join sep [] = []"
| "join sep [x] = x"
| "join sep (x # y # ys) = x @ sep @ join sep (y # ys)"

definition padStart :: "nat \<Rightarrow> char \<Rightarrow> string \<Rightarrow> string" where
  "padStart n c s = replicate (n - length s) c @ s"

definition hexDigit :: "nat \<Rightarrow> char" where
  "hexDigit d = ''0123456789abcdef'' ! d"

text \<open>\<open>Number.prototype.toString(16)\<close> on a non-negative integer.\<close>

fun toString16 :: "nat \<Rightarrow> string" where
  "toString16 n = (if n < 16 then [hexDigit n] else toString16 (n div 16) @ [hexDigit (n mod 16)])"

declare toString16.simps [simp del]

text \<open>\<open>TextEncoder.encode\<close>: a string is already held as its UTF-8 bytes.\<close>

definition TextEncoder_encode :: "string \<Rightarrow> bytes" where
  "TextEncoder_encode s = map (\<lambda>c. of_char c) s"

text \<open>
  \<open>TypedArray.prototype.set(source, offset)\<close>: copies the source into the target at the offset,
  and throws a RangeError when the source does not fit.
\<close>

definition typed_set :: "bytes \<Rightarrow> bytes \<Rightarrow> nat \<Rightarrow> error + bytes" where
  "typed_set target source offset =
     (if length target < offset + length source then Inl RangeError
      else Inr (take offset target @ source @ drop (offset + length source) target))"

section \<open>Key derivation (utils/caching.ts)\<close>

datatype key_part = Str string | Buf bytes

fun part_length :: "key_part \<Rightarrow> nat" where
  "part_length (Str s) = length (TextEncoder_encode s)"
| "part_length (Buf b) = length b"

text \<open>The body of the \<open>for (const part of parts)\<close> loop, with the buffer and the offset it updates.\<close>

fun copy_parts :: "key_part list \<Rightarrow> bytes \<Rightarrow> nat \<Rightarrow> error + bytes" where
  "copy_parts [] combined offset = Inr combined"
| "copy_parts (Str s # ps) combined offset =
     (let encoded = TextEncoder_encode s in
      case typed_set combined encoded offset of
        Inl e \<Rightarrow> Inl e
      | Inr combined' \<Rightarrow> copy_parts ps combined' (offset + length encoded))"
| "copy_parts (Buf b # ps) combined offset =
     (case typed_set combined b offset of
        Inl e \<Rightarrow> Inl e
      | Inr combined' \<Rightarrow> copy_parts ps combined' (offset + length b))"

text \<open>
  \<open>generateCacheKey\<close>. The digest (\<open>crypto.subtle.digest('SHA-256', _)\<close>) belongs to the
  host and is a parameter.
\<close>

definition generateCacheKey :: "(bytes \<Rightarrow> bytes) \<Rightarrow> key_part list \<Rightarrow> error + string" where
  "generateCacheKey digest parts =
     (let totalLength = foldl (\<lambda>acc part. acc + part_length part) 0 parts;
          combined = replicate totalLength 0
      in case copy_parts parts combined 0 of
           Inl e \<Rightarrow> Inl e
         | Inr combined' \<Rightarrow>
             (let hashArray = digest combined';
                  hashHex = concat (map (\<lambda>b. padStart 2 (CHR ''0'') (toString16 (unat b))) hashArray)
              in Inr hashHex))"

text \<open>
  The specification's reading of the key deriver: the in-order concatenation of the parts' bytes,
  digested, each digest byte rendered as two lowercase hexadecimal digits.
\<close>

fun part_bytes :: "key_part \<Rightarrow> bytes" where
  "part_bytes (Str s) = TextEncoder_encode s"
| "part_bytes (Buf b) = b"

definition parts_concat :: "key_part list \<Rightarrow> bytes" where
  "parts_concat parts = concat (map part_bytes parts)"

definition lower_hex :: "bytes \<Rightarrow> string" where
  "lower_hex bs = concat (map (\<lambda>b. [hexDigit (unat b div 16), hexDigit (unat b mod 16)]) bs)"

section \<open>The response cache (utils/caching.ts)\<close>

text \<open>
  The host's \<open>sessionStorage\<close>: string keys to string items. Access throws a SecurityError when
  storage is disabled, and a write throws a QuotaExceededError when the stored characters would
  exceed the quota.
\<close>

record session_storage =
  entries :: "(string \<times> string) list"
  accessible :: bool
  quota :: nat

definition usage :: "(string \<times> string) list \<Rightarrow> nat" where
  "usage es = sum_list (map (\<lambda>(k, v). length k + length v) es)"

definition getItem :: "session_storage \<Rightarrow> string \<Rightarrow> error + string option" where
  "getItem st k = (if accessible st then Inr (map_of (entries st) k) else Inl SecurityError)"

definition setItem :: "session_storage \<Rightarrow> string \<Rightarrow> string \<Rightarrow> error + session_storage" where
  "setItem st k v =
     (if \<not> accessible st then Inl SecurityError
      else let es = AList.update k v (entries st) in
           if quota st < usage es then Inl QuotaExceededError
           else Inr (st\<lparr>entries := es\<rparr>))"

text \<open>
  \<open>getFromCache\<close>. \<open>JSON.parse\<close> is a parameter, returning a value of the caller's type or
  \<open>None\<close> when it throws. The \<open>try\<close> block is \<open>getFromCache_try\<close>, the \<open>catch\<close> logs and
  returns \<open>null\<close>. A stored text that parses to \<open>null\<close> is returned as \<open>null\<close> by the code
  without a console entry; here it counts as a text that does not parse, so the value returned
  is the same and only the console differs.
\<close>

definition getFromCache_try :: "(string \<Rightarrow> 'v option) \<Rightarrow> string \<Rightarrow> session_storage \<Rightarrow> error + 'v option" where
  "getFromCache_try JSON_parse key st =
     (case getItem st key of
        Inl e \<Rightarrow> Inl e
      | Inr None \<Rightarrow> Inr None
      | Inr (Some item) \<Rightarrow>
          if item = [] then Inr None
          else (case JSON_parse item of None \<Rightarrow> Inl SyntaxError | Some v \<Rightarrow> Inr (Some v)))"

definition getFromCache ::
  "(string \<Rightarrow> 'v option) \<Rightarrow> string \<Rightarrow> session_storage \<Rightarrow> log_entry list
     \<Rightarrow> (error + 'v option) \<times> log_entry list" where
  "getFromCache JSON_parse key st cons =
     (case getFromCache_try JSON_parse key st of
        Inr r \<Rightarrow> (Inr r, cons)
      | Inl e \<Rightarrow>
          (Inr None,
           cons @ [ConsoleError (''Failed to retrieve or parse cache for key '' @ [CHR 0x22] @ key @ [CHR 0x22])]))"

text \<open>
  \<open>setInCache\<close>. \<open>JSON.stringify\<close> is a parameter, \<open>None\<close> when it throws.
\<close>

definition setInCache_try :: "('v \<Rightarrow> string option) \<Rightarrow> string \<Rightarrow> 'v \<Rightarrow> session_storage \<Rightarrow> error + session_storage" where
  "setInCache_try JSON_stringify key data st =
     (case JSON_stringify data of
        None \<Rightarrow> Inl TypeError
      | Some item \<Rightarrow> setItem st key item)"

definition setInCache ::
  "('v \<Rightarrow> string option) \<Rightarrow> string \<Rightarrow> 'v \<Rightarrow> session_storage \<Rightarrow> log_entry list
     \<Rightarrow> (error + unit) \<times> session_storage \<times> log_entry list" where
  "setInCache JSON_stringify key data st cons =
     (case setInCache_try JSON_stringify key data st of
        Inr st' \<Rightarrow> (Inr (), st', cons)
      | Inl e \<Rightarrow>
          (Inr (), st,
           cons @ [ConsoleError (''Failed to set cache for key '' @ [CHR 0x22] @ key @ [CHR 0x22])]))"

section \<open>The generation gateway (services/geminiService.ts)\<close>

subsection \<open>Data\<close>

record GeneratedFile =
  path :: string
  content :: string

record AssetMapping =
  originalPath :: string
  newPath :: string

text \<open>A browser \<open>File\<close>: its name, its MIME type and its contents.\<close>

record File =
  name :: string
  type :: string
  fileBits :: bytes

datatype origin_kind = asset | addon_file

record UploadedFile =
  ufile :: File
  kind :: origin_kind

text \<open>
  The parsed response of the generator, at the type the code casts it to: every field may be
  missing.
\<close>

record GenerationResult =
  files :: "GeneratedFile list option"
  assetMappings :: "AssetMapping list option"
  summaryReport :: "string option"

text \<open>A content part: \<open>{ text }\<close> or \<open>{ inlineData: { mimeType, data } }\<close>.\<close>

datatype part = TextPart string | InlineData string "string option"

text \<open>
  One call of \<open>ai.models.generateContent\<close>. The model name, the response MIME type and the
  response schema are the same in every call and are left out.
\<close>

record request =
  systemInstruction :: string
  contents :: "part list"
  temperature :: real

text \<open>
  What the host and the external services provide: the SHA-256 digest, the JSON codec at the
  type of a generation result, the two ways of reading a file (\<open>None\<close> when the read fails), and
  the generator, whose answer (the response text, or a failure) may depend on every call made so
  far.
\<close>

record host =
  sha256 :: "bytes \<Rightarrow> bytes"
  jsonParse :: "string \<Rightarrow> GenerationResult option"
  jsonStringify :: "GenerationResult \<Rightarrow> string option"
  readAsDataURL :: "File \<Rightarrow> string option"
  fileText :: "File \<Rightarrow> string option"
  generateContent :: "request list \<Rightarrow> request \<Rightarrow> error + string"

text \<open>The state the gateway reads and writes: session storage, the calls made to the generator, the console.\<close>

record world =
  storage :: session_storage
  calls :: "request list"
  console :: "log_entry list"

subsection \<open>Files to content parts\<close>

text \<open>\<open>result.split(',')[1]\<close>: the text between the first and the second comma, if there is a comma.\<close>

definition split_comma_1 :: "string \<Rightarrow> string option" where
  "split_comma_1 s =
     (if CHR '','' \<in> set s
      then Some (takeWhile (\<lambda>c. c \<noteq> CHR '','') (drop 1 (dropWhile (\<lambda>c. c \<noteq> CHR '','') s)))
      else None)"

definition fileToBase64 :: "host \<Rightarrow> File \<Rightarrow> error + string option" where
  "fileToBase64 h f =
     (case readAsDataURL h f of
        None \<Rightarrow> Inl NotReadableError
      | Some result \<Rightarrow> Inr (split_comma_1 result))"

text \<open>
  \<open>filesToGenerativeParts\<close> (utils/fileConverter.ts). When several reads fail, the failure of
  the first file in the list is the one reported.
\<close>

fun filesToGenerativeParts :: "host \<Rightarrow> UploadedFile list \<Rightarrow> error + part list" where
  "filesToGenerativeParts h [] = Inr []"
| "filesToGenerativeParts h (uploadedFile # rest) =
     (case fileToBase64 h (ufile uploadedFile) of
        Inl e \<Rightarrow> Inl e
      | Inr base64 \<Rightarrow>
          (case filesToGenerativeParts h rest of
             Inl e \<Rightarrow> Inl e
           | Inr ps \<Rightarrow>
               Inr (TextPart (''This is the content of the file: '' @ name (ufile uploadedFile))
                    # InlineData (if type (ufile uploadedFile) = [] then ''application/octet-stream''
                                  else type (ufile uploadedFile)) base64
                    # ps)))"

definition TEXT_EXTENSIONS :: "string list" where
  "TEXT_EXTENSIONS = [''.json'', ''.js'', ''.mcfunction'', ''.lang'', ''.md'', ''.txt'']"

definition file_header :: "string \<Rightarrow> string \<Rightarrow> string" where
  "file_header p c = ''File path: '' @ p @ [CHR 0x0A, CHR 0x0A] @ ''---'' @ [CHR 0x0A, CHR 0x0A] @ c"

text \<open>The loop of \<open>filesToSmartParts\<close>, with the two lists it fills and the console.\<close>

fun smartParts_loop ::
  "host \<Rightarrow> UploadedFile list \<Rightarrow> part list \<Rightarrow> string list \<Rightarrow> log_entry list
     \<Rightarrow> part list \<times> string list \<times> log_entry list" where
  "smartParts_loop h [] ps binaryFilePaths cons = (ps, binaryFilePaths, cons)"
| "smartParts_loop h (uploadedFile # rest) ps binaryFilePaths cons =
     (let fileName = name (ufile uploadedFile);
          isText = list_ex (\<lambda>ext. endsWith (toLowerCase fileName) ext) TEXT_EXTENSIONS
      in if isText then
           (case fileText h (ufile uploadedFile) of
              Some c \<Rightarrow> smartParts_loop h rest (ps @ [TextPart (file_header fileName c)]) binaryFilePaths cons
            | None \<Rightarrow>
                smartParts_loop h rest ps (binaryFilePaths @ [fileName])
                  (cons @ [ConsoleWarn (''Could not read file '' @ fileName @ '' as text, treating as binary.'')]))
         else smartParts_loop h rest ps (binaryFilePaths @ [fileName]) cons)"

definition filesToSmartParts ::
  "host \<Rightarrow> UploadedFile list \<Rightarrow> log_entry list \<Rightarrow> part list \<times> log_entry list" where
  "filesToSmartParts h fs cons =
     (case smartParts_loop h fs [] [] cons of
        (ps, binaryFilePaths, cons') \<Rightarrow>
          (if binaryFilePaths \<noteq> [] then
             ps @ [TextPart (''The following binary asset files also exist. You must create assetMappings for them to include them in the final addon:''
                             @ [CHR 0x0A] @ ''- '' @ join ([CHR 0x0A] @ ''- '') binaryFilePaths)]
           else ps,
           cons'))"

subsection \<open>One call of the generator\<close>

definition unparseable_message :: string where
  "unparseable_message = ''The AI returned a response that couldn't be understood. This can happen with very complex or ambiguous requests. Please try simplifying your prompt, or try again.''"

definition parseJsonResponse ::
  "(string \<Rightarrow> 'r option) \<Rightarrow> string \<Rightarrow> log_entry list \<Rightarrow> (error + 'r) \<times> log_entry list" where
  "parseJsonResponse JSON_parse responseText cons =
     (let jsonText = trim responseText;
          s1 = (if startsWith jsonText ''```json'' then drop 7 jsonText else jsonText);
          s2 = (if endsWith s1 ''```'' then take (length s1 - 3) s1 else s1);
          cleanJsonText = trim s2
      in case JSON_parse cleanJsonText of
           Some result \<Rightarrow> (Inr result, cons)
         | None \<Rightarrow>
             (Inl (Error unparseable_message),
              cons @ [ConsoleError ''Failed to parse Gemini response as JSON'',
                      ConsoleError (''Raw response: '' @ responseText)]))"

definition performSingleGeneration ::
  "host \<Rightarrow> string \<Rightarrow> string \<Rightarrow> part list \<Rightarrow> real \<Rightarrow> world \<Rightarrow> (error + GenerationResult) \<times> world" where
  "performSingleGeneration h sysInstr prompt ps temp w =
     (let req = \<lparr>systemInstruction = sysInstr, contents = TextPart prompt # ps, temperature = temp\<rparr>;
          w1 = w\<lparr>calls := calls w @ [req]\<rparr>
      in case generateContent h (calls w) req of
           Inl e \<Rightarrow> (Inl e, w1)
         | Inr responseText \<Rightarrow>
             (case parseJsonResponse (jsonParse h) responseText (console w1) of
                (r, cons) \<Rightarrow> (r, w1\<lparr>console := cons\<rparr>)))"

subsection \<open>\<open>generateAddonFiles\<close>\<close>

text \<open>\<open>p.text || p.inlineData.mimeType\<close>: on a text part with the empty text, \<open>p.inlineData\<close> is undefined.\<close>

fun part_text_or_mimeType :: "part \<Rightarrow> error + string" where
  "part_text_or_mimeType (TextPart t) = (if t = [] then Inl TypeError else Inr t)"
| "part_text_or_mimeType (InlineData mimeType d) = Inr mimeType"

fun map_result :: "('a \<Rightarrow> error + 'b) \<Rightarrow> 'a list \<Rightarrow> error + 'b list" where
  "map_result f [] = Inr []"
| "map_result f (x # xs) =
     (case f x of
        Inl e \<Rightarrow> Inl e
      | Inr y \<Rightarrow> (case map_result f xs of Inl e \<Rightarrow> Inl e | Inr ys \<Rightarrow> Inr (y # ys)))"

definition partIdentifier :: "part list \<Rightarrow> error + string" where
  "partIdentifier ps =
     (case map_result part_text_or_mimeType ps of
        Inl e \<Rightarrow> Inl e
      | Inr ids \<Rightarrow> Inr (join ''|'' ids))"

text \<open>Line 251: the content parts of the uploaded files.\<close>

definition gateway_parts :: "host \<Rightarrow> UploadedFile list \<Rightarrow> bool \<Rightarrow> world \<Rightarrow> (error + part list) \<times> world" where
  "gateway_parts h uploadedFiles useSmartParts w =
     (if useSmartParts then
        (case filesToSmartParts h uploadedFiles (console w) of
           (ps, cons) \<Rightarrow> (Inr ps, w\<lparr>console := cons\<rparr>))
      else (filesToGenerativeParts h uploadedFiles, w))"

text \<open>Lines 255 and 256: the cache key of a request.\<close>

definition gateway_cacheKey :: "host \<Rightarrow> string \<Rightarrow> string \<Rightarrow> part list \<Rightarrow> error + string" where
  "gateway_cacheKey h sysInstr prompt ps =
     (case partIdentifier ps of
        Inl e \<Rightarrow> Inl e
      | Inr pid \<Rightarrow> generateCacheKey (sha256 h) [Str sysInstr, Str prompt, Str pid])"

definition initial_empty_message :: string where
  "initial_empty_message = ''The AI did not generate any files in the initial step. Your request might be too vague, unsupported, or against the safety policy. Please provide more specific details and try again.''"

definition verification_empty_message :: string where
  "verification_empty_message = ''The AI failed to return any files during the verification step. This is an unexpected error. The initial files have been preserved. Please try again.''"

text \<open>
  The verification instruction is a fixed text of some fifty lines that the code only passes
  on; its opening sentence stands for it here.
\<close>

definition verificationSystemInstruction :: string where
  "verificationSystemInstruction = ''You are the infallible core of a self-correcting IDE for Minecraft Bedrock addons.''"

definition verificationPrompt :: "string \<Rightarrow> string" where
  "verificationPrompt prompt =
     ''The original user request was: '' @ [CHR 0x22] @ prompt @ [CHR 0x22]
     @ ''. Please verify and correct the following addon files to perfectly match the request and ensure they are 100% bug-free and production-ready.''"

definition no_files :: "GenerationResult \<Rightarrow> bool" where
  "no_files r = (case files r of None \<Rightarrow> True | Some fs \<Rightarrow> fs = [])"

definition generatedFileParts :: "GenerationResult \<Rightarrow> part list" where
  "generatedFileParts r =
     (case files r of
        None \<Rightarrow> []
      | Some fs \<Rightarrow> map (\<lambda>f. TextPart (file_header (path f) (content f))) fs)"

text \<open>Lines 266 to 347: what the gateway does after a cache miss.\<close>

definition gateway_miss ::
  "host \<Rightarrow> string \<Rightarrow> string \<Rightarrow> part list \<Rightarrow> string \<Rightarrow> world \<Rightarrow> (error + GenerationResult) \<times> world" where
  "gateway_miss h sysInstr prompt ps cacheKey w =
     (case performSingleGeneration h sysInstr prompt ps 0.1 w of
        (Inl e, w1) \<Rightarrow> (Inl e, w1)
      | (Inr initialResult, w1) \<Rightarrow>
          if no_files initialResult then (Inl (Error initial_empty_message), w1)
          else
            (let w2 = w1\<lparr>console := console w1 @ [ConsoleLog ''Performing verification and correction step...'']\<rparr>
             in case performSingleGeneration h verificationSystemInstruction (verificationPrompt prompt)
                       (generatedFileParts initialResult) 0.0 w2 of
                  (Inl e, w3) \<Rightarrow> (Inl e, w3)
                | (Inr verified, w3) \<Rightarrow>
                    (let finalResult = verified\<lparr>assetMappings := assetMappings initialResult,
                                                summaryReport := summaryReport initialResult\<rparr>;
                         w4 = w3\<lparr>console := console w3 @ [ConsoleLog ''Verification complete.'']\<rparr>
                     in if no_files finalResult then (Inl (Error verification_empty_message), w4)
                        else
                          (case setInCache (jsonStringify h) cacheKey finalResult (storage w4) (console w4) of
                             (Inl e, st, cons) \<Rightarrow> (Inl e, w4\<lparr>storage := st, console := cons\<rparr>)
                           | (Inr u, st, cons) \<Rightarrow> (Inr finalResult, w4\<lparr>storage := st, console := cons\<rparr>)))))"

definition generateAddonFiles ::
  "host \<Rightarrow> string \<Rightarrow> string \<Rightarrow> UploadedFile list \<Rightarrow> bool \<Rightarrow> world \<Rightarrow> (error + GenerationResult) \<times> world" where
  "generateAddonFiles h sysInstr prompt uploadedFiles useSmartParts w =
     (case gateway_parts h uploadedFiles useSmartParts w of
        (Inl e, w1) \<Rightarrow> (Inl e, w1)
      | (Inr ps, w1) \<Rightarrow>
          (case gateway_cacheKey h sysInstr prompt ps of
             Inl e \<Rightarrow> (Inl e, w1)
           | Inr cacheKey \<Rightarrow>
               (case getFromCache (jsonParse h) cacheKey (storage w1) (console w1) of
                  (Inl e, cons) \<Rightarrow> (Inl e, w1\<lparr>console := cons\<rparr>)
                | (Inr (Some cachedData), cons) \<Rightarrow>
                    (Inr cachedData,
                     w1\<lparr>console := cons @ [ConsoleLog (''Cache hit! Returning cached addon files. '' @ cacheKey)]\<rparr>)
                | (Inr None, cons) \<Rightarrow>
                    gateway_miss h sysInstr prompt ps cacheKey
                      (w1\<lparr>console := cons @ [ConsoleLog (''Cache miss. Generating new addon files. '' @ cacheKey)]\<rparr>))))"

subsection \<open>Observations on the gateway\<close>

text \<open>
  The two requests the gateway issues, and the outcome of one call of the generator issued
  after a given history of calls: the generator's failure, the parse failure, or the parsed
  result.
\<close>

definition initial_request :: "string \<Rightarrow> string \<Rightarrow> part list \<Rightarrow> request" where
  "initial_request sysInstr prompt ps =
     \<lparr>systemInstruction = sysInstr, contents = TextPart prompt # ps, temperature = 0.1\<rparr>"

definition verification_request :: "string \<Rightarrow> GenerationResult \<Rightarrow> request" where
  "verification_request prompt initialResult =
     \<lparr>systemInstruction = verificationSystemInstruction,
      contents = TextPart (verificationPrompt prompt) # generatedFileParts initialResult,
      temperature = 0\<rparr>"

definition pass_result :: "host \<Rightarrow> request list \<Rightarrow> request \<Rightarrow> error + GenerationResult" where
  "pass_result h history req =
     (case generateContent h history req of
        Inl e \<Rightarrow> Inl e
      | Inr responseText \<Rightarrow> fst (parseJsonResponse (jsonParse h) responseText []))"

section \<open>Archive assembly (utils/fileConverter.ts)\<close>

text \<open>
  A JSZip instance is the list of its entries in insertion order, one entry per name:
  \<open>zip.file(name, data)\<close> replaces the entry of that name or appends a new one. The data of
  an entry is a text, a \<open>File\<close> or a blob. The directory entries JSZip adds for the parent
  folders of a name are left out; they never replace an entry. The instance the source calls
  \<open>zip\<close> is written \<open>z\<close> below.
\<close>

datatype zip_data = TextData string | FileData File | BlobData bytes

type_synonym archive = "(string \<times> zip_data) list"

definition zip_file :: "string \<Rightarrow> zip_data \<Rightarrow> archive \<Rightarrow> archive" where
  "zip_file p d z = AList.update p d z"

text \<open>
  An entry of an uploaded container as \<open>JSZip.loadAsync\<close> presents it; \<open>blob\<close> is what
  \<open>async('blob')\<close> yields, \<open>None\<close> when it throws.
\<close>

record ZipObject =
  zname :: string
  dir :: bool
  blob :: "bytes option"

definition quoted :: "string \<Rightarrow> string" where
  "quoted s = [CHR 0x27] @ s @ [CHR 0x27]"

text \<open>The console entries of \<open>downloadAddon\<close>.\<close>

definition ambiguity_warning :: "UploadedFile list \<Rightarrow> AssetMapping \<Rightarrow> log_entry" where
  "ambiguity_warning matches mapping =
     ConsoleWarn (''Ambiguous asset mapping for '' @ quoted (originalPath mapping)
       @ ''. Multiple files matched: '' @ join '', '' (map (\<lambda>f. name (ufile f)) matches)
       @ ''. Using the first one found: '' @ quoted (name (ufile (hd matches))) @ ''.'')"

definition not_found_warning :: "AssetMapping \<Rightarrow> log_entry" where
  "not_found_warning mapping =
     ConsoleWarn (''Asset for mapping '' @ quoted (originalPath mapping) @ '' -> ''
       @ quoted (newPath mapping) @ '' not found in any uploaded files or zips.'')"

definition zip_read_error :: "UploadedFile \<Rightarrow> AssetMapping \<Rightarrow> log_entry" where
  "zip_read_error uf mapping =
     ConsoleError (''Error reading zip file '' @ name (ufile uf)
       @ '' while searching for asset '' @ originalPath mapping)"

text \<open>Line 47.\<close>

definition looseMatches :: "UploadedFile list \<Rightarrow> AssetMapping \<Rightarrow> UploadedFile list" where
  "looseMatches uploadedFiles mapping =
     filter (\<lambda>uf. endsWith (name (ufile uf)) (originalPath mapping)) uploadedFiles"

text \<open>Lines 49 to 60: the file chosen among the loose inputs, and the console.\<close>

definition loose_target ::
  "UploadedFile list \<Rightarrow> AssetMapping \<Rightarrow> log_entry list \<Rightarrow> File option \<times> log_entry list" where
  "loose_target uploadedFiles mapping cons =
     (case looseMatches uploadedFiles mapping of
        [] \<Rightarrow> (None, cons)
      | first # others \<Rightarrow>
          (case find (\<lambda>uf. name (ufile uf) = originalPath mapping) (first # others) of
             Some exactMatch \<Rightarrow> (Some (ufile exactMatch), cons)
           | None \<Rightarrow>
               (Some (ufile first),
                if 1 < length (first # others) then
                  cons @ [ambiguity_warning (first # others) mapping]
                else cons)))"

definition is_container_name :: "string \<Rightarrow> bool" where
  "is_container_name n =
     (let fileName = toLowerCase n
      in endsWith fileName ''.zip'' \<or> endsWith fileName ''.mcaddon'' \<or> endsWith fileName ''.mcpack'')"

text \<open>The predicate of the \<open>find\<close> on line 78.\<close>

definition entry_matches :: "AssetMapping \<Rightarrow> ZipObject \<Rightarrow> bool" where
  "entry_matches mapping f = (\<not> dir f \<and> endsWith (zname f) (originalPath mapping))"

text \<open>
  Lines 68 to 91: the search inside the uploaded containers. \<open>loadAsync\<close> is JSZip's, \<open>None\<close>
  when it throws; it lists the entries in the order of \<open>Object.values\<close>. The result is
  \<open>found\<close>, the archive and the console.
\<close>

fun search_containers ::
  "(File \<Rightarrow> ZipObject list option) \<Rightarrow> AssetMapping \<Rightarrow> UploadedFile list \<Rightarrow> archive \<Rightarrow> log_entry list
     \<Rightarrow> bool \<times> archive \<times> log_entry list" where
  "search_containers loadAsync mapping [] z cons = (False, z, cons)"
| "search_containers loadAsync mapping (uf # rest) z cons =
     (if is_container_name (name (ufile uf)) then
        (case loadAsync (ufile uf) of
           None \<Rightarrow>
             search_containers loadAsync mapping rest z
               (cons @ [zip_read_error uf mapping])
         | Some zipEntries \<Rightarrow>
             (case find (entry_matches mapping) zipEntries of
                None \<Rightarrow> search_containers loadAsync mapping rest z cons
              | Some assetFile \<Rightarrow>
                  (case blob assetFile of
                     None \<Rightarrow>
                       search_containers loadAsync mapping rest z
                         (cons @ [zip_read_error uf mapping])
                   | Some assetContent \<Rightarrow>
                       (True, zip_file (newPath mapping) (BlobData assetContent) z, cons))))
      else search_containers loadAsync mapping rest z cons)"

text \<open>Lines 38 to 96: the body of the loop over the asset mappings.\<close>

definition add_mapping ::
  "(File \<Rightarrow> ZipObject list option) \<Rightarrow> UploadedFile list \<Rightarrow> AssetMapping \<Rightarrow> archive \<times> log_entry list
     \<Rightarrow> archive \<times> log_entry list" where
  "add_mapping loadAsync uploadedFiles mapping zc =
     (case zc of (z, cons) \<Rightarrow>
        (case loose_target uploadedFiles mapping cons of
           (Some targetFile, cons1) \<Rightarrow> (zip_file (newPath mapping) (FileData targetFile) z, cons1)
         | (None, cons1) \<Rightarrow>
             (case search_containers loadAsync mapping uploadedFiles z cons1 of
                (found, z', cons2) \<Rightarrow>
                  (z',
                   if found then cons2
                   else cons2 @ [not_found_warning mapping]))))"

text \<open>Lines 29 to 97: the archive before it is serialised, and the console.\<close>

definition assemble ::
  "(File \<Rightarrow> ZipObject list option) \<Rightarrow> GeneratedFile list \<Rightarrow> UploadedFile list \<Rightarrow> AssetMapping list
     \<Rightarrow> archive \<times> log_entry list" where
  "assemble loadAsync fs uploadedFiles mappings =
     fold (add_mapping loadAsync uploadedFiles) mappings
       (fold (\<lambda>f z. zip_file (path f) (TextData (content f)) z) fs [], [])"

text \<open>The link the download is triggered with: the file name and the serialised archive.\<close>

record download_link =
  download :: string
  href :: bytes

text \<open>
  \<open>downloadAddon\<close>. \<open>generateAsync\<close> is JSZip's serialiser, \<open>None\<close> when it throws.
\<close>

definition downloadAddon ::
  "(File \<Rightarrow> ZipObject list option) \<Rightarrow> (archive \<Rightarrow> bytes option) \<Rightarrow> string \<Rightarrow> GeneratedFile list
     \<Rightarrow> UploadedFile list \<Rightarrow> AssetMapping list \<Rightarrow> (error + download_link) \<times> log_entry list" where
  "downloadAddon loadAsync generateAsync addonName fs uploadedFiles mappings =
     (case assemble loadAsync fs uploadedFiles mappings of
        (z, cons) \<Rightarrow>
          (case generateAsync z of
             None \<Rightarrow> (Inl CodecError, cons)
           | Some c \<Rightarrow> (Inr \<lparr>download = addonName @ ''.mcaddon'', href = c\<rparr>, cons)))"

text \<open>The character class \<open>[a-zA-Z0-9_ -]\<close>.\<close>

definition allowed_char :: "char \<Rightarrow> bool" where
  "allowed_char c =
     (let n = (of_char c :: nat)
      in (97 \<le> n \<and> n \<le> 122) \<or> (65 \<le> n \<and> n \<le> 90) \<or> (48 \<le> n \<and> n \<le> 57)
         \<or> c = CHR ''_'' \<or> c = CHR '' '' \<or> c = CHR ''-'')"

definition safeAddonName :: "string \<Rightarrow> string" where
  "safeAddonName addonName =
     (let s = trim (filter allowed_char addonName) in if s = [] then ''addon'' else s)"

text \<open>\<open>downloadMcaddonFromZips\<close>.\<close>

definition downloadMcaddonFromZips ::
  "(archive \<Rightarrow> bytes option) \<Rightarrow> string \<Rightarrow> File option \<Rightarrow> File option \<Rightarrow> error + download_link" where
  "downloadMcaddonFromZips generateAsync addonName rpFile bpFile =
     (let zip0 = (case rpFile of None \<Rightarrow> [] | Some rp \<Rightarrow> zip_file (name rp) (FileData rp) []);
          zip1 = (case bpFile of None \<Rightarrow> zip0 | Some bp \<Rightarrow> zip_file (name bp) (FileData bp) zip0)
      in case generateAsync zip1 of
           None \<Rightarrow> Inl CodecError
         | Some c \<Rightarrow> Inr \<lparr>download = safeAddonName addonName @ ''.mcaddon'', href = c\<rparr>)"

subsection \<open>The specification's reading of resolution, assembly and file names\<close>

text \<open>
  What an uploaded container yields for a mapping: the bytes of its first entry that is not a
  directory and whose name ends with the original path, when the container opens and the entry
  extracts.
\<close>

definition container_hit :: "(File \<Rightarrow> ZipObject list option) \<Rightarrow> AssetMapping \<Rightarrow> UploadedFile \<Rightarrow> bytes option" where
  "container_hit loadAsync mapping uf =
     (if is_container_name (name (ufile uf)) then
        (case loadAsync (ufile uf) of
           None \<Rightarrow> None
         | Some zipEntries \<Rightarrow>
             (case find (entry_matches mapping) zipEntries of
                None \<Rightarrow> None
              | Some assetFile \<Rightarrow> blob assetFile))
      else None)"

text \<open>
  The resolver of the specification: an exact name among the uploaded inputs first, then the
  first input whose name has the original path as a suffix, then the containers in upload
  order, then not found.
\<close>

definition resolve ::
  "(File \<Rightarrow> ZipObject list option) \<Rightarrow> UploadedFile list \<Rightarrow> AssetMapping \<Rightarrow> zip_data option" where
  "resolve loadAsync uploadedFiles mapping =
     (case find (\<lambda>uf. name (ufile uf) = originalPath mapping) uploadedFiles of
        Some exactMatch \<Rightarrow> Some (FileData (ufile exactMatch))
      | None \<Rightarrow>
          (case find (\<lambda>uf. suffix (originalPath mapping) (name (ufile uf))) uploadedFiles of
             Some first \<Rightarrow> Some (FileData (ufile first))
           | None \<Rightarrow>
               (case List.map_filter (container_hit loadAsync mapping) uploadedFiles of
                  [] \<Rightarrow> None
                | assetContent # others \<Rightarrow> Some (BlobData assetContent))))"

text \<open>
  The writes of an assembly in the order they are applied: the generated files in their order,
  then the relocations that resolve, in the order of the mappings.
\<close>

definition generated_writes :: "GeneratedFile list \<Rightarrow> (string \<times> zip_data) list" where
  "generated_writes fs = map (\<lambda>f. (path f, TextData (content f))) fs"

definition relocation_writes ::
  "(File \<Rightarrow> ZipObject list option) \<Rightarrow> UploadedFile list \<Rightarrow> AssetMapping list \<Rightarrow> (string \<times> zip_data) list" where
  "relocation_writes loadAsync uploadedFiles mappings =
     List.map_filter
       (\<lambda>m. case resolve loadAsync uploadedFiles m of None \<Rightarrow> None | Some d \<Rightarrow> Some (newPath m, d))
       mappings"

definition assembly_writes ::
  "(File \<Rightarrow> ZipObject list option) \<Rightarrow> GeneratedFile list \<Rightarrow> UploadedFile list \<Rightarrow> AssetMapping list
     \<Rightarrow> (string \<times> zip_data) list" where
  "assembly_writes loadAsync fs uploadedFiles mappings =
     generated_writes fs @ relocation_writes loadAsync uploadedFiles mappings"

text \<open>
  The file name as the specification words it: the characters outside \<open>[A-Za-z0-9_ -]\<close>
  stripped, a default for the empty result, then the extension.
\<close>

definition name_class :: "char list" where
  "name_class = ''abcdefghijklmnopqrstuvwxyz'' @ ''ABCDEFGHIJKLMNOPQRSTUVWXYZ'' @ ''0123456789'' @ ''_ -''"

definition stripped_name :: "string \<Rightarrow> string" where
  "stripped_name addonName = filter (\<lambda>c. c \<in> set name_class) addonName"

definition claimed_filename :: "string \<Rightarrow> string" where
  "claimed_filename addonName =
     (if stripped_name addonName = [] then ''addon'' else stripped_name addonName) @ ''.mcaddon''"

definition strip_spaces :: "string \<Rightarrow> string" where
  "strip_spaces s = rev (dropWhile (\<lambda>c. c = CHR '' '') (rev (dropWhile (\<lambda>c. c = CHR '' '') s)))"

section \<open>Concrete instances\<close>

text \<open>A toy digest of 32 bytes (the first 32 bytes of the input, padded with zeros), a small JSON codec and a generator that answers by temperature; they instantiate the theorems below.\<close>

definition demo_digest :: "bytes \<Rightarrow> bytes" where
  "demo_digest bs = take 32 (bs @ replicate 32 0)"

definition demo_initial :: GenerationResult where
  "demo_initial =
     \<lparr>files = Some [\<lparr>path = ''a.json'', content = ''{}''\<rparr>],
      assetMappings = Some [\<lparr>originalPath = ''x.png'', newPath = ''t/x.png''\<rparr>],
      summaryReport = Some ''first''\<rparr>"

definition demo_verified :: GenerationResult where
  "demo_verified =
     \<lparr>files = Some [\<lparr>path = ''a.json'', content = ''{ }''\<rparr>],
      assetMappings = None,
      summaryReport = Some ''second''\<rparr>"

definition demo_final :: GenerationResult where
  "demo_final =
     \<lparr>files = Some [\<lparr>path = ''a.json'', content = ''{ }''\<rparr>],
      assetMappings = Some [\<lparr>originalPath = ''x.png'', newPath = ''t/x.png''\<rparr>],
      summaryReport = Some ''first''\<rparr>"

definition demo_empty :: GenerationResult where
  "demo_empty = \<lparr>files = Some [], assetMappings = None, summaryReport = None\<rparr>"

definition demo_parse :: "string \<Rightarrow> GenerationResult option" where
  "demo_parse s =
     (if s = ''initial'' then Some demo_initial
      else if s = ''verified'' then Some demo_verified
      else if s = ''final'' then Some demo_final
      else if s = ''empty'' then Some demo_empty
      else None)"

definition demo_stringify :: "GenerationResult \<Rightarrow> string option" where
  "demo_stringify r = (if r = demo_final then Some ''final'' else None)"

text \<open>The generator answers \<open>first\<close> to a call at a temperature other than 0 and \<open>second\<close> to a call at temperature 0.\<close>

definition demo_host :: "string \<Rightarrow> string \<Rightarrow> host" where
  "demo_host first second =
     \<lparr>sha256 = demo_digest, jsonParse = demo_parse, jsonStringify = demo_stringify,
      readAsDataURL = (\<lambda>f. Some ''data:image/png;base64,AAEC''),
      fileText = (\<lambda>f. Some ''{}''),
      generateContent = (\<lambda>history req. if temperature req = 0 then Inr second else Inr first)\<rparr>"

definition demo_storage :: "nat \<Rightarrow> session_storage" where
  "demo_storage q = \<lparr>entries = [], accessible = True, quota = q\<rparr>"

definition demo_world :: "nat \<Rightarrow> world" where
  "demo_world q = \<lparr>storage = demo_storage q, calls = [], console = []\<rparr>"

definition demo_png :: "string \<Rightarrow> UploadedFile" where
  "demo_png n = \<lparr>ufile = \<lparr>name = n, type = ''image/png'', fileBits = [0, 1, 2]\<rparr>, kind = asset\<rparr>"

definition demo_key :: string where
  "demo_key = lower_hex (demo_digest (parts_concat [Str ''sys'', Str ''prompt'', Str '''']))"

definition demo_cached_world :: world where
  "demo_cached_world =
     \<lparr>storage = \<lparr>entries = [(demo_key, ''final'')], accessible = True, quota = 1000\<rparr>,
      calls = [], console = []\<rparr>"

definition demo_mapping :: "string \<Rightarrow> string \<Rightarrow> AssetMapping" where
  "demo_mapping orig new = \<lparr>originalPath = orig, newPath = new\<rparr>"

definition demo_entry :: "string \<Rightarrow> ZipObject" where
  "demo_entry n = \<lparr>zname = n, dir = False, blob = Some [7, 8]\<rparr>"

text \<open>A loader that opens every file as a container with a folder entry and two files.\<close>

definition demo_loadAsync :: "File \<Rightarrow> ZipObject list option" where
  "demo_loadAsync f =
     Some [\<lparr>zname = ''textures/'', dir = True, blob = None\<rparr>,
           demo_entry ''textures/sword.png'', demo_entry ''textures/bow.png'']"

section \<open>Key derivation: the loop builds the concatenation\<close>

lemma endsWith_suffix: "endsWith s t = suffix t s"
  unfolding endsWith_def
proof
  assume a: "length t \<le> length s \<and> drop (length s - length t) s = t"
  then have "s = take (length s - length t) s @ t" by (metis append_take_drop_id)
  then show "suffix t s" unfolding suffix_def by blast
next
  assume "suffix t s"
  then obtain p where "s = p @ t" unfolding suffix_def by blast
  then show "length t \<le> length s \<and> drop (length s - length t) s = t" by simp
qed

lemma typed_set_fits:
  assumes "offset + length e \<le> length combined"
  shows "typed_set combined e offset = Inr (take offset combined @ e @ drop (offset + length e) combined)"
  using assms by (simp add: typed_set_def)

lemma splice_take:
  assumes "offset + length e \<le> length (combined :: 'a list)"
  shows "take (offset + length e) (take offset combined @ e @ drop (offset + length e) combined)
           = take offset combined @ e"
  using assms by simp

lemma splice_drop:
  assumes "offset + length e \<le> length (combined :: 'a list)"
  shows "drop (offset + length e + n) (take offset combined @ e @ drop (offset + length e) combined)
           = drop (offset + length e + n) combined"
  using assms by (simp add: add.commute add.left_commute)

lemma splice_length:
  assumes "offset + length e \<le> length (combined :: 'a list)"
  shows "length (take offset combined @ e @ drop (offset + length e) combined) = length combined"
  using assms by simp

lemma copy_parts_step:
  assumes fit: "offset + length e + length (parts_concat ps) \<le> length combined"
    and IH: "\<And>combined offset. offset + length (parts_concat ps) \<le> length combined \<Longrightarrow>
      copy_parts ps combined offset =
        Inr (take offset combined @ parts_concat ps @ drop (offset + length (parts_concat ps)) combined)"
  shows "(case typed_set combined e offset of Inl x \<Rightarrow> Inl x
          | Inr combined' \<Rightarrow> copy_parts ps combined' (offset + length e))
         = Inr (take offset combined @ (e @ parts_concat ps) @ drop (offset + length (e @ parts_concat ps)) combined)"
proof -
  let ?c = "take offset combined @ e @ drop (offset + length e) combined"
  from fit have fit1: "offset + length e \<le> length combined" by simp
  have len: "length ?c = length combined" by (rule splice_length [OF fit1])
  have tk: "take (offset + length e) ?c = take offset combined @ e"
    by (rule splice_take [OF fit1])
  have dr: "drop (offset + length e + length (parts_concat ps)) ?c
      = drop (offset + length e + length (parts_concat ps)) combined"
    by (rule splice_drop [OF fit1])
  have "copy_parts ps ?c (offset + length e) =
       Inr (take (offset + length e) ?c @ parts_concat ps @ drop (offset + length e + length (parts_concat ps)) ?c)"
    using fit len by (intro IH) simp
  also have "\<dots> = Inr ((take offset combined @ e) @ parts_concat ps
       @ drop (offset + length e + length (parts_concat ps)) combined)"
    by (simp only: tk dr)
  also have "\<dots> = Inr (take offset combined @ (e @ parts_concat ps)
       @ drop (offset + length (e @ parts_concat ps)) combined)"
    by (simp add: add.assoc)
  finally have "copy_parts ps ?c (offset + length e) = Inr (take offset combined @ (e @ parts_concat ps)
       @ drop (offset + length (e @ parts_concat ps)) combined)" .
  then show ?thesis
    by (simp only: typed_set_fits [OF fit1] sum.case)
qed

lemma copy_parts_concat:
  "offset + length (parts_concat ps) \<le> length combined \<Longrightarrow>
   copy_parts ps combined offset =
     Inr (take offset combined @ parts_concat ps @ drop (offset + length (parts_concat ps)) combined)"
proof (induction ps arbitrary: combined offset)
  case Nil
  then show ?case by (simp add: parts_concat_def)
next
  case (Cons p ps)
  show ?case
  proof (cases p)
    case (Str s)
    from Cons.prems Str
    have fit: "offset + length (TextEncoder_encode s) + length (parts_concat ps) \<le> length combined"
      by (simp add: parts_concat_def)
    have pc: "parts_concat (Str s # ps) = TextEncoder_encode s @ parts_concat ps"
      by (simp add: parts_concat_def)
    show ?thesis
      using copy_parts_step [OF fit Cons.IH] unfolding Str pc by (simp add: Let_def)
  next
    case (Buf b)
    from Cons.prems Buf
    have fit: "offset + length b + length (parts_concat ps) \<le> length combined"
      by (simp add: parts_concat_def)
    have pc: "parts_concat (Buf b # ps) = b @ parts_concat ps"
      by (simp add: parts_concat_def)
    show ?thesis
      using copy_parts_step [OF fit Cons.IH] unfolding Buf pc by simp
  qed
qed

lemma totalLength_eq: "foldl (\<lambda>acc part. acc + part_length part) a ps = a + length (parts_concat ps)"
proof (induction ps arbitrary: a)
  case Nil then show ?case by (simp add: parts_concat_def)
next
  case (Cons p ps) then show ?case by (cases p) (simp_all add: parts_concat_def)
qed

lemma hex_byte: "n < 256 \<Longrightarrow> padStart 2 (CHR ''0'') (toString16 n) = [hexDigit (n div 16), hexDigit (n mod 16)]"
proof (cases "n < 16")
  case True
  then show ?thesis by (simp add: toString16.simps [of n] padStart_def hexDigit_def)
next
  case False
  assume "n < 256"
  with False have "n div 16 < 16" by simp
  with False show ?thesis
    by (simp add: toString16.simps [of n] toString16.simps [of "n div 16"] padStart_def)
qed

lemma hashHex_lower_hex:
  "concat (map (\<lambda>b. padStart 2 (CHR ''0'') (toString16 (unat b))) (hs :: bytes)) = lower_hex hs"
proof -
  have "\<And>b :: 8 word. unat b < 256"
  proof -
    fix b :: "8 word"
    have "unat b < 2 ^ LENGTH(8)" by (rule unsigned_less)
    then show "unat b < 256" by simp
  qed
  then show ?thesis by (simp add: lower_hex_def hex_byte)
qed

lemma generateCacheKey_eq: "generateCacheKey digest parts = Inr (lower_hex (digest (parts_concat parts)))"
  by (simp add: generateCacheKey_def Let_def totalLength_eq copy_parts_concat hashHex_lower_hex)


lemma hexDigit_inj: "a < 16 \<Longrightarrow> b < 16 \<Longrightarrow> hexDigit a = hexDigit b \<Longrightarrow> a = b"
proof -
  assume a: "a < 16" and b: "b < 16" and e: "hexDigit a = hexDigit b"
  have d: "distinct ''0123456789abcdef''" by simp
  have l: "length ''0123456789abcdef'' = 16" by simp
  from e show "a = b"
    unfolding hexDigit_def using nth_eq_iff_index_eq [OF d, of a b] a b l by simp
qed

lemma hex_pair_inj:
  fixes a b :: "8 word"
  assumes "[hexDigit (unat a div 16), hexDigit (unat a mod 16)] = [hexDigit (unat b div 16), hexDigit (unat b mod 16)]"
  shows "a = b"
proof -
  have la: "unat a < 256" using unsigned_less [of a, where 'a = nat] by simp
  have lb: "unat b < 256" using unsigned_less [of b, where 'a = nat] by simp
  from la have "unat a div 16 < 16" by simp
  moreover from lb have "unat b div 16 < 16" by simp
  moreover from assms have "hexDigit (unat a div 16) = hexDigit (unat b div 16)" by simp
  ultimately have d: "unat a div 16 = unat b div 16" by (rule hexDigit_inj)
  have "unat a mod 16 < 16" "unat b mod 16 < 16" by simp_all
  moreover from assms have "hexDigit (unat a mod 16) = hexDigit (unat b mod 16)" by simp
  ultimately have m: "unat a mod 16 = unat b mod 16" by (rule hexDigit_inj)
  have "unat a = 16 * (unat a div 16) + unat a mod 16" by simp
  also have "\<dots> = 16 * (unat b div 16) + unat b mod 16" by (simp only: d m)
  also have "\<dots> = unat b" by simp
  finally show "a = b" by (simp add: word_unat_eq_iff)
qed

lemma lower_hex_Cons: "lower_hex (b # bs) = hexDigit (unat b div 16) # hexDigit (unat b mod 16) # lower_hex bs"
  by (simp add: lower_hex_def)

lemma lower_hex_inj: "lower_hex xs = lower_hex ys \<Longrightarrow> xs = ys"
proof (induction xs arbitrary: ys)
  case Nil
  then show ?case by (cases ys) (simp_all add: lower_hex_def)
next
  case (Cons x xs)
  then obtain y ys' where ys: "ys = y # ys'" by (cases ys) (simp_all add: lower_hex_def)
  from Cons.prems ys
  have p: "[hexDigit (unat x div 16), hexDigit (unat x mod 16)] = [hexDigit (unat y div 16), hexDigit (unat y mod 16)]"
    and r: "lower_hex xs = lower_hex ys'"
    by (simp_all add: lower_hex_Cons)
  from p have "x = y" by (rule hex_pair_inj)
  with Cons.IH [OF r] ys show ?case by simp
qed

lemma lower_hex_length: "length (lower_hex bs) = 2 * length bs"
  by (induction bs) (simp_all add: lower_hex_def)

lemma hexDigit_range: "d < 16 \<Longrightarrow> hexDigit d \<in> set ''0123456789abcdef''"
  unfolding hexDigit_def by (rule nth_mem) simp

lemma lower_hex_chars: "set (lower_hex bs) \<subseteq> set ''0123456789abcdef''"
proof (induction bs)
  case Nil
  show ?case by (simp add: lower_hex_def)
next
  case (Cons b bs)
  have "unat b < 256" using unsigned_less [of b, where 'a = nat] by simp
  then have "unat b div 16 < 16" by simp
  then have h1: "hexDigit (unat b div 16) \<in> set ''0123456789abcdef''" by (rule hexDigit_range)
  have h2: "hexDigit (unat b mod 16) \<in> set ''0123456789abcdef''" by (rule hexDigit_range) simp
  from Cons.IH h1 h2 show ?case by (simp only: lower_hex_Cons set_simps(2) insert_subset)
qed

section \<open>The key deriver and the claim about the cache\<close>

text \<open>
  The key deriver with the digest left open. \<open>generateCacheKey\<close> raises no error of its
  own and is the lowercase hexadecimal rendering (two digits per byte) of the digest of the
  in-order concatenation of the parts' bytes. Two part lists get the same key exactly when the
  digest agrees on their concatenations: the copying and the rendering add no collision. Whether
  inputs that differ in one byte get different keys is then a property of the digest alone, and
  is not decided here.
\<close>

lemma generateCacheKey_digest_hex:
  "generateCacheKey digest ps = Inr (lower_hex (digest (parts_concat ps)))
   \<and> (generateCacheKey digest ps = generateCacheKey digest qs)
       = (digest (parts_concat ps) = digest (parts_concat qs))
   \<and> (\<exists>k. generateCacheKey digest ps = Inr k
          \<and> length k = 2 * length (digest (parts_concat ps))
          \<and> set k \<subseteq> set ''0123456789abcdef'')"
proof -
  have eq: "\<And>xs. generateCacheKey digest xs = Inr (lower_hex (digest (parts_concat xs)))"
    by (rule generateCacheKey_eq)
  have iff: "(generateCacheKey digest ps = generateCacheKey digest qs)
       = (digest (parts_concat ps) = digest (parts_concat qs))"
    unfolding eq using lower_hex_inj by auto
  show ?thesis
    using eq [of ps] iff lower_hex_length lower_hex_chars by simp
qed

lemma generateCacheKey_digest_hex_instance:
  "generateCacheKey demo_digest [Str ''ab'', Buf [255, 1], Str ''c'']
     = Inr (lower_hex (demo_digest (parts_concat [Str ''ab'', Buf [255, 1], Str ''c''])))
   \<and> generateCacheKey demo_digest [Str ''ab'', Buf [255, 1], Str ''c'']
     = generateCacheKey demo_digest [Str ''a'', Str ''b'', Buf [255], Buf [1], Str ''c'']"
proof -
  note t = generateCacheKey_digest_hex
      [of demo_digest "[Str ''ab'', Buf [255, 1], Str ''c'']"
          "[Str ''a'', Str ''b'', Buf [255], Buf [1], Str ''c'']"]
  have pc: "parts_concat [Str ''ab'', Buf [255, 1], Str ''c'']
      = parts_concat [Str ''a'', Str ''b'', Buf [255], Buf [1], Str ''c'']"
    by (simp add: parts_concat_def TextEncoder_encode_def)
  from t have a: "generateCacheKey demo_digest [Str ''ab'', Buf [255, 1], Str ''c'']
     = Inr (lower_hex (demo_digest (parts_concat [Str ''ab'', Buf [255, 1], Str ''c''])))"
    by (rule conjunct1)
  from t have "(generateCacheKey demo_digest [Str ''ab'', Buf [255, 1], Str ''c'']
       = generateCacheKey demo_digest [Str ''a'', Str ''b'', Buf [255], Buf [1], Str ''c''])
     = (demo_digest (parts_concat [Str ''ab'', Buf [255, 1], Str ''c''])
       = demo_digest (parts_concat [Str ''a'', Str ''b'', Buf [255], Buf [1], Str ''c'']))"
    by blast
  then have b: "generateCacheKey demo_digest [Str ''ab'', Buf [255, 1], Str ''c'']
       = generateCacheKey demo_digest [Str ''a'', Str ''b'', Buf [255], Buf [1], Str ''c'']"
    by (simp only: pc)
  from a b show ?thesis by (rule conjI)
qed

text \<open>
  C5. \<open>getFromCache\<close> never throws: it completes with a value or with \<open>null\<close>, and it returns
  \<open>null\<close> when the key is unseen, when the stored item does not parse, and when the access to
  storage fails. \<open>setInCache\<close> never throws: when serialisation or the write fails, it completes
  all the same, storage is as it was, and the failure is on the console.
\<close>

theorem cache_never_throws:
  "(\<exists>r c. getFromCache JSON_parse key st cons = (Inr r, c))
   \<and> (getItem st key = Inr None \<longrightarrow> getFromCache JSON_parse key st cons = (Inr None, cons))
   \<and> (\<forall>item. getItem st key = Inr (Some item) \<and> JSON_parse item = None
         \<longrightarrow> fst (getFromCache JSON_parse key st cons) = Inr None)
   \<and> (\<forall>e. getItem st key = Inl e \<longrightarrow> fst (getFromCache JSON_parse key st cons) = Inr None)
   \<and> (\<exists>st' c. setInCache JSON_stringify key data st cons = (Inr (), st', c))
   \<and> (\<forall>e. setInCache_try JSON_stringify key data st = Inl e
         \<longrightarrow> setInCache JSON_stringify key data st cons
             = (Inr (), st, cons @ [ConsoleError (''Failed to set cache for key '' @ [CHR 0x22] @ key @ [CHR 0x22])]))"
proof -
  have g: "\<exists>r c. getFromCache JSON_parse key st cons = (Inr r, c)"
    by (simp add: getFromCache_def split: sum.split)
  have s: "\<exists>st' c. setInCache JSON_stringify key data st cons = (Inr (), st', c)"
    by (simp add: setInCache_def split: sum.split)
  have unseen: "getItem st key = Inr None \<longrightarrow> getFromCache JSON_parse key st cons = (Inr None, cons)"
    by (simp add: getFromCache_def getFromCache_try_def)
  have corrupt: "\<forall>item. getItem st key = Inr (Some item) \<and> JSON_parse item = None
         \<longrightarrow> fst (getFromCache JSON_parse key st cons) = Inr None"
    by (simp add: getFromCache_def getFromCache_try_def)
  have fails: "\<forall>e. getItem st key = Inl e \<longrightarrow> fst (getFromCache JSON_parse key st cons) = Inr None"
    by (simp add: getFromCache_def getFromCache_try_def)
  have swallowed: "\<forall>e. setInCache_try JSON_stringify key data st = Inl e
         \<longrightarrow> setInCache JSON_stringify key data st cons
             = (Inr (), st, cons @ [ConsoleError (''Failed to set cache for key '' @ [CHR 0x22] @ key @ [CHR 0x22])])"
    by (simp add: setInCache_def)
  from g unseen corrupt fails s swallowed show ?thesis by blast
qed

theorem cache_never_throws_witness:
  "fst (getFromCache demo_parse ''k'' (demo_storage 100) []) = Inr None
   \<and> fst (getFromCache demo_parse ''k'' \<lparr>entries = [(''k'', ''{bad'')], accessible = True, quota = 100\<rparr> []) = Inr None
   \<and> fst (getFromCache demo_parse ''k'' \<lparr>entries = [(''k'', ''final'')], accessible = False, quota = 100\<rparr> []) = Inr None
   \<and> fst (setInCache demo_stringify ''k'' demo_final (demo_storage 3) []) = Inr ()
   \<and> fst (snd (setInCache demo_stringify ''k'' demo_final (demo_storage 3) [])) = demo_storage 3
   \<and> fst (setInCache demo_stringify ''k'' demo_initial (demo_storage 100) []) = Inr ()
   \<and> fst (snd (setInCache demo_stringify ''k'' demo_initial (demo_storage 100) [])) = demo_storage 100"
proof -
  have h1: "getItem (demo_storage 100) ''k'' = Inr None"
    by (simp add: getItem_def demo_storage_def)
  have h2: "getItem \<lparr>entries = [(''k'', ''{bad'')], accessible = True, quota = 100\<rparr> ''k'' = Inr (Some ''{bad'')
            \<and> demo_parse ''{bad'' = None"
    by (simp add: getItem_def demo_parse_def)
  have h3: "getItem \<lparr>entries = [(''k'', ''final'')], accessible = False, quota = 100\<rparr> ''k'' = Inl SecurityError"
    by (simp add: getItem_def)
  have h4: "setInCache_try demo_stringify ''k'' demo_final (demo_storage 3) = Inl QuotaExceededError"
    by (simp add: setInCache_try_def demo_stringify_def setItem_def demo_storage_def usage_def)
  have h5: "setInCache_try demo_stringify ''k'' demo_initial (demo_storage 100) = Inl TypeError"
    by (simp add: setInCache_try_def demo_stringify_def demo_initial_def demo_final_def)
  show ?thesis
    using h1 h2 h3 h4 h5
      cache_never_throws [of demo_parse "''k''" "demo_storage 100" "[]" demo_stringify demo_final]
      cache_never_throws [of demo_parse "''k''" "\<lparr>entries = [(''k'', ''{bad'')], accessible = True, quota = 100\<rparr>" "[]" demo_stringify demo_final]
      cache_never_throws [of demo_parse "''k''" "\<lparr>entries = [(''k'', ''final'')], accessible = False, quota = 100\<rparr>" "[]" demo_stringify demo_final]
      cache_never_throws [of demo_parse "''k''" "demo_storage 3" "[]" demo_stringify demo_final]
      cache_never_throws [of demo_parse "''k''" "demo_storage 100" "[]" demo_stringify demo_initial]
    by simp
qed

section \<open>The gateway: frame lemmas and case analysis\<close>

lemma parseJsonResponse_fst:
  "fst (parseJsonResponse P t c) = fst (parseJsonResponse P t [])"
  by (simp add: parseJsonResponse_def Let_def split: option.split)

lemma psg_eq:
  "\<exists>c. performSingleGeneration h s p ps t w
     = (pass_result h (calls w) \<lparr>systemInstruction = s, contents = TextPart p # ps, temperature = t\<rparr>,
        w\<lparr>calls := calls w @ [\<lparr>systemInstruction = s, contents = TextPart p # ps, temperature = t\<rparr>],
          console := c\<rparr>)"
proof (cases "generateContent h (calls w) \<lparr>systemInstruction = s, contents = TextPart p # ps, temperature = t\<rparr>")
  case (Inl e)
  then have "performSingleGeneration h s p ps t w
     = (pass_result h (calls w) \<lparr>systemInstruction = s, contents = TextPart p # ps, temperature = t\<rparr>,
        w\<lparr>calls := calls w @ [\<lparr>systemInstruction = s, contents = TextPart p # ps, temperature = t\<rparr>],
          console := console w\<rparr>)"
    by (simp add: performSingleGeneration_def pass_result_def Let_def)
  then show ?thesis by blast
next
  case (Inr rtext)
  obtain r c where pr: "parseJsonResponse (jsonParse h) rtext (console w) = (r, c)"
    by (cases "parseJsonResponse (jsonParse h) rtext (console w)") blast
  then have "r = fst (parseJsonResponse (jsonParse h) rtext [])"
    using parseJsonResponse_fst [of "jsonParse h" rtext "console w"] by simp
  with Inr pr have "performSingleGeneration h s p ps t w
     = (pass_result h (calls w) \<lparr>systemInstruction = s, contents = TextPart p # ps, temperature = t\<rparr>,
        w\<lparr>calls := calls w @ [\<lparr>systemInstruction = s, contents = TextPart p # ps, temperature = t\<rparr>],
          console := c\<rparr>)"
    by (simp add: performSingleGeneration_def pass_result_def Let_def)
  then show ?thesis by blast
qed

lemma setInCache_eq:
  "\<exists>c. setInCache S k d st cons
     = (Inr (), (case setInCache_try S k d st of Inr st' \<Rightarrow> st' | Inl e \<Rightarrow> st), c)"
  by (simp add: setInCache_def split: sum.split)

lemma getFromCache_fst:
  "fst (getFromCache P k st c) = (case getFromCache_try P k st of Inr r \<Rightarrow> Inr r | Inl e \<Rightarrow> Inr None)"
  by (simp add: getFromCache_def split: sum.split)

lemma no_files_update [simp]:
  "no_files (r\<lparr>assetMappings := a, summaryReport := b\<rparr>) = no_files r"
  by (simp add: no_files_def)

text \<open>What the gateway does after a miss, by the outcome of the first pass.\<close>

lemma gateway_miss_first_fails:
  assumes "pass_result h (calls w) (initial_request s p ps) = Inl e"
  shows "fst (gateway_miss h s p ps k w) = Inl e
       \<and> calls (snd (gateway_miss h s p ps k w)) = calls w @ [initial_request s p ps]
       \<and> storage (snd (gateway_miss h s p ps k w)) = storage w"
proof -
  obtain c where "performSingleGeneration h s p ps 0.1 w
     = (Inl e, w\<lparr>calls := calls w @ [initial_request s p ps], console := c\<rparr>)"
    using psg_eq [of h s p ps "0.1" w] assms unfolding initial_request_def by auto
  then show ?thesis by (simp add: gateway_miss_def)
qed

lemma gateway_miss_first_empty:
  assumes "pass_result h (calls w) (initial_request s p ps) = Inr r1" "no_files r1"
  shows "fst (gateway_miss h s p ps k w) = Inl (Error initial_empty_message)
       \<and> calls (snd (gateway_miss h s p ps k w)) = calls w @ [initial_request s p ps]
       \<and> storage (snd (gateway_miss h s p ps k w)) = storage w"
proof -
  obtain c where "performSingleGeneration h s p ps 0.1 w
     = (Inr r1, w\<lparr>calls := calls w @ [initial_request s p ps], console := c\<rparr>)"
    using psg_eq [of h s p ps "0.1" w] assms unfolding initial_request_def by auto
  then show ?thesis using assms(2) by (simp add: gateway_miss_def)
qed

lemma gateway_miss_verified:
  assumes "pass_result h (calls w) (initial_request s p ps) = Inr r1" "\<not> no_files r1"
  shows "\<exists>c.
     gateway_miss h s p ps k w =
       (case pass_result h (calls w @ [initial_request s p ps]) (verification_request p r1) of
          Inl e \<Rightarrow> (Inl e, w\<lparr>calls := calls w @ [initial_request s p ps, verification_request p r1],
                             console := c\<rparr>)
        | Inr r2 \<Rightarrow>
            if no_files r2 then
              (Inl (Error verification_empty_message),
               w\<lparr>calls := calls w @ [initial_request s p ps, verification_request p r1],
                 console := c\<rparr>)
            else
              (Inr (r2\<lparr>assetMappings := assetMappings r1, summaryReport := summaryReport r1\<rparr>),
               w\<lparr>storage := (case setInCache_try (jsonStringify h) k
                                  (r2\<lparr>assetMappings := assetMappings r1, summaryReport := summaryReport r1\<rparr>)
                                  (storage w) of Inr st' \<Rightarrow> st' | Inl e \<Rightarrow> storage w),
                 calls := calls w @ [initial_request s p ps, verification_request p r1],
                 console := c\<rparr>))"
proof -
  let ?req1 = "initial_request s p ps"
  let ?req2 = "verification_request p r1"
  obtain c1 where p1: "performSingleGeneration h s p ps 0.1 w
     = (Inr r1, w\<lparr>calls := calls w @ [?req1], console := c1\<rparr>)"
    using psg_eq [of h s p ps "0.1" w] assms unfolding initial_request_def by auto
  let ?w2 = "w\<lparr>calls := calls w @ [?req1], console := c1 @ [ConsoleLog ''Performing verification and correction step...'']\<rparr>"
  obtain c2 where p2: "performSingleGeneration h verificationSystemInstruction (verificationPrompt p)
        (generatedFileParts r1) 0 ?w2
     = (pass_result h (calls w @ [?req1]) ?req2,
        ?w2\<lparr>calls := calls w @ [?req1, ?req2], console := c2\<rparr>)"
    using psg_eq [of h verificationSystemInstruction "verificationPrompt p" "generatedFileParts r1" 0 ?w2]
    unfolding verification_request_def by auto
  show ?thesis
  proof (cases "pass_result h (calls w @ [?req1]) ?req2")
    case (Inl e)
    with p1 p2 assms(2) show ?thesis
      by (intro exI [of _ c2]) (simp add: gateway_miss_def Let_def)
  next
    case (Inr r2)
    let ?final = "r2\<lparr>assetMappings := assetMappings r1, summaryReport := summaryReport r1\<rparr>"
    show ?thesis
    proof (cases "no_files r2")
      case True
      with Inr p1 p2 assms(2) show ?thesis
        by (intro exI [of _ "c2 @ [ConsoleLog ''Verification complete.'']"]) (simp add: gateway_miss_def Let_def)
    next
      case False
      obtain c3 where sc: "setInCache (jsonStringify h) k ?final (storage w)
           (c2 @ [ConsoleLog ''Verification complete.''])
         = (Inr (), (case setInCache_try (jsonStringify h) k ?final (storage w) of Inr st' \<Rightarrow> st' | Inl e \<Rightarrow> storage w), c3)"
        using setInCache_eq [of "jsonStringify h" k ?final "storage w" "c2 @ [ConsoleLog ''Verification complete.'']"]
        by blast
      with False Inr p1 p2 assms(2) show ?thesis
        by (intro exI [of _ c3]) (simp add: gateway_miss_def Let_def)
    qed
  qed
qed


lemma smartParts_loop_cons:
  "fst (smartParts_loop h fs ps bs c) = fst (smartParts_loop h fs ps bs c')
   \<and> fst (snd (smartParts_loop h fs ps bs c)) = fst (snd (smartParts_loop h fs ps bs c'))"
proof (induction fs arbitrary: ps bs c c')
  case Nil
  show ?case by simp
next
  case (Cons u fs)
  show ?case
    using Cons.IH by (simp add: Let_def split: option.split)
qed

lemma filesToSmartParts_fst:
  "fst (filesToSmartParts h fs c) = fst (filesToSmartParts h fs c')"
proof -
  obtain P B C where l1: "smartParts_loop h fs [] [] c = (P, B, C)"
    by (cases "smartParts_loop h fs [] [] c") blast
  obtain P' B' C' where l2: "smartParts_loop h fs [] [] c' = (P', B', C')"
    by (cases "smartParts_loop h fs [] [] c'") blast
  from smartParts_loop_cons [of h fs "[]" "[]" c c'] l1 l2 have "P = P'" "B = B'" by simp_all
  with l1 l2 show ?thesis by (simp add: filesToSmartParts_def)
qed

lemma gateway_parts_frame:
  "calls (snd (gateway_parts h ufs smart w)) = calls w
   \<and> storage (snd (gateway_parts h ufs smart w)) = storage w"
  by (simp add: gateway_parts_def split: prod.split)

lemma gateway_parts_fst:
  "fst (gateway_parts h ufs smart w) = fst (gateway_parts h ufs smart w')"
proof (cases smart)
  case True
  obtain P C where l1: "filesToSmartParts h ufs (console w) = (P, C)"
    by (cases "filesToSmartParts h ufs (console w)") blast
  obtain P' C' where l2: "filesToSmartParts h ufs (console w') = (P', C')"
    by (cases "filesToSmartParts h ufs (console w')") blast
  from filesToSmartParts_fst [of h ufs "console w" "console w'"] l1 l2 have "P = P'" by simp
  with True l1 l2 show ?thesis by (simp add: gateway_parts_def)
next
  case False
  then show ?thesis by (simp add: gateway_parts_def)
qed

lemma gateway_on_hit:
  assumes ps: "fst (gateway_parts h ufs smart w) = Inr ps"
    and k: "gateway_cacheKey h s p ps = Inr k"
    and hit: "fst (getFromCache (jsonParse h) k (storage w) cons) = Inr (Some v)"
  shows "fst (generateAddonFiles h s p ufs smart w) = Inr v
       \<and> calls (snd (generateAddonFiles h s p ufs smart w)) = calls w
       \<and> storage (snd (generateAddonFiles h s p ufs smart w)) = storage w"
proof -
  obtain w1 where gp: "gateway_parts h ufs smart w = (Inr ps, w1)"
    using ps by (cases "gateway_parts h ufs smart w") simp
  with gateway_parts_frame [of h ufs smart w]
  have fr: "calls w1 = calls w" "storage w1 = storage w" by simp_all
  obtain r c where g: "getFromCache (jsonParse h) k (storage w) (console w1) = (r, c)"
    by (cases "getFromCache (jsonParse h) k (storage w) (console w1)") blast
  with hit have "r = Inr (Some v)"
    using getFromCache_fst [of "jsonParse h" k "storage w" cons]
      getFromCache_fst [of "jsonParse h" k "storage w" "console w1"] by simp
  with g gp k fr show ?thesis
    by (simp add: generateAddonFiles_def)
qed

lemma gateway_on_miss:
  assumes ps: "fst (gateway_parts h ufs smart w) = Inr ps"
    and k: "gateway_cacheKey h s p ps = Inr k"
    and miss: "fst (getFromCache (jsonParse h) k (storage w) cons) = Inr None"
  shows "\<exists>w'. generateAddonFiles h s p ufs smart w = gateway_miss h s p ps k w'
            \<and> calls w' = calls w \<and> storage w' = storage w"
proof -
  obtain w1 where gp: "gateway_parts h ufs smart w = (Inr ps, w1)"
    using ps by (cases "gateway_parts h ufs smart w") simp
  with gateway_parts_frame [of h ufs smart w]
  have fr: "calls w1 = calls w" "storage w1 = storage w" by simp_all
  obtain r c where g: "getFromCache (jsonParse h) k (storage w) (console w1) = (r, c)"
    by (cases "getFromCache (jsonParse h) k (storage w) (console w1)") blast
  with miss have "r = Inr None"
    using getFromCache_fst [of "jsonParse h" k "storage w" cons]
      getFromCache_fst [of "jsonParse h" k "storage w" "console w1"] by simp
  with g gp k fr have "generateAddonFiles h s p ufs smart w
      = gateway_miss h s p ps k (w1\<lparr>console := c @ [ConsoleLog (''Cache miss. Generating new addon files. '' @ k)]\<rparr>)"
    by (simp add: generateAddonFiles_def)
  with fr show ?thesis
    by (intro exI [of _ "w1\<lparr>console := c @ [ConsoleLog (''Cache miss. Generating new addon files. '' @ k)]\<rparr>"]) simp
qed

lemma messages_differ: "initial_empty_message \<noteq> verification_empty_message"
  by (simp add: initial_empty_message_def verification_empty_message_def)

section \<open>Claims about the gateway\<close>

lemma gateway_after_miss:
  assumes ps: "fst (gateway_parts h ufs smart w) = Inr ps"
    and k: "gateway_cacheKey h s p ps = Inr k"
    and miss: "fst (getFromCache (jsonParse h) k (storage w) cons) = Inr None"
    and r1: "pass_result h (calls w) (initial_request s p ps) = Inr r1"
    and nf: "\<not> no_files r1"
  shows "fst (generateAddonFiles h s p ufs smart w) =
           (case pass_result h (calls w @ [initial_request s p ps]) (verification_request p r1) of
              Inl e \<Rightarrow> Inl e
            | Inr r2 \<Rightarrow> if no_files r2 then Inl (Error verification_empty_message)
                        else Inr (r2\<lparr>assetMappings := assetMappings r1, summaryReport := summaryReport r1\<rparr>))"
    and "calls (snd (generateAddonFiles h s p ufs smart w))
           = calls w @ [initial_request s p ps, verification_request p r1]"
    and "storage (snd (generateAddonFiles h s p ufs smart w)) =
           (case pass_result h (calls w @ [initial_request s p ps]) (verification_request p r1) of
              Inl e \<Rightarrow> storage w
            | Inr r2 \<Rightarrow>
                if no_files r2 then storage w
                else (case setInCache_try (jsonStringify h) k
                             (r2\<lparr>assetMappings := assetMappings r1, summaryReport := summaryReport r1\<rparr>)
                             (storage w) of
                        Inr st' \<Rightarrow> st' | Inl e \<Rightarrow> storage w))"
proof -
  let ?G = "generateAddonFiles h s p ufs smart w"
  obtain w' where G: "?G = gateway_miss h s p ps k w'" and fr: "calls w' = calls w" "storage w' = storage w"
    using gateway_on_miss [OF ps k miss] by blast
  from r1 have r1': "pass_result h (calls w') (initial_request s p ps) = Inr r1"
    using fr by simp
  from gateway_miss_verified [OF r1' nf, of k]
  obtain c where M: "gateway_miss h s p ps k w' =
       (case pass_result h (calls w' @ [initial_request s p ps]) (verification_request p r1) of
          Inl e \<Rightarrow> (Inl e, w'\<lparr>calls := calls w' @ [initial_request s p ps, verification_request p r1],
                             console := c\<rparr>)
        | Inr r2 \<Rightarrow>
            if no_files r2 then
              (Inl (Error verification_empty_message),
               w'\<lparr>calls := calls w' @ [initial_request s p ps, verification_request p r1],
                 console := c\<rparr>)
            else
              (Inr (r2\<lparr>assetMappings := assetMappings r1, summaryReport := summaryReport r1\<rparr>),
               w'\<lparr>storage := (case setInCache_try (jsonStringify h) k
                                  (r2\<lparr>assetMappings := assetMappings r1, summaryReport := summaryReport r1\<rparr>)
                                  (storage w') of Inr st' \<Rightarrow> st' | Inl e \<Rightarrow> storage w'),
                 calls := calls w' @ [initial_request s p ps, verification_request p r1],
                 console := c\<rparr>))"
    by blast
  show "fst ?G =
           (case pass_result h (calls w @ [initial_request s p ps]) (verification_request p r1) of
              Inl e \<Rightarrow> Inl e
            | Inr r2 \<Rightarrow> if no_files r2 then Inl (Error verification_empty_message)
                        else Inr (r2\<lparr>assetMappings := assetMappings r1, summaryReport := summaryReport r1\<rparr>))"
    unfolding G M using fr by (simp split: sum.split)
  show "calls (snd ?G) = calls w @ [initial_request s p ps, verification_request p r1]"
    unfolding G M using fr by (simp split: sum.split)
  show "storage (snd ?G) =
           (case pass_result h (calls w @ [initial_request s p ps]) (verification_request p r1) of
              Inl e \<Rightarrow> storage w
            | Inr r2 \<Rightarrow>
                if no_files r2 then storage w
                else (case setInCache_try (jsonStringify h) k
                             (r2\<lparr>assetMappings := assetMappings r1, summaryReport := summaryReport r1\<rparr>)
                             (storage w) of
                        Inr st' \<Rightarrow> st' | Inl e \<Rightarrow> storage w))"
    unfolding G M using fr by (simp split: sum.split)
qed

lemma gateway_miss_success_cases:
  assumes ps: "fst (gateway_parts h ufs smart w) = Inr ps"
    and k: "gateway_cacheKey h s p ps = Inr k"
    and miss: "fst (getFromCache (jsonParse h) k (storage w) cons) = Inr None"
    and ok: "fst (generateAddonFiles h s p ufs smart w) = Inr final"
  shows "\<exists>r1 r2. pass_result h (calls w) (initial_request s p ps) = Inr r1 \<and> \<not> no_files r1
           \<and> pass_result h (calls w @ [initial_request s p ps]) (verification_request p r1) = Inr r2
           \<and> \<not> no_files r2
           \<and> final = r2\<lparr>assetMappings := assetMappings r1, summaryReport := summaryReport r1\<rparr>"
proof -
  let ?G = "generateAddonFiles h s p ufs smart w"
  obtain w' where G: "?G = gateway_miss h s p ps k w'" and fr: "calls w' = calls w" "storage w' = storage w"
    using gateway_on_miss [OF ps k miss] by blast
  show ?thesis
  proof (cases "pass_result h (calls w) (initial_request s p ps)")
    case (Inl e)
    with gateway_miss_first_fails [of h w' s p ps e k] fr G ok show ?thesis by simp
  next
    case (Inr r1)
    show ?thesis
    proof (cases "no_files r1")
      case True
      with Inr gateway_miss_first_empty [of h w' s p ps r1 k] fr G ok show ?thesis by simp
    next
      case False
      from gateway_after_miss(1) [OF ps k miss Inr False] ok
      show ?thesis using Inr False
        by (cases "pass_result h (calls w @ [initial_request s p ps]) (verification_request p r1)")
           (auto split: if_splits)
    qed
  qed
qed

lemma gateway_miss_calls_begin:
  assumes ps: "fst (gateway_parts h ufs smart w) = Inr ps"
    and k: "gateway_cacheKey h s p ps = Inr k"
    and miss: "fst (getFromCache (jsonParse h) k (storage w) cons) = Inr None"
  shows "\<exists>rest. calls (snd (generateAddonFiles h s p ufs smart w)) = calls w @ initial_request s p ps # rest"
proof -
  let ?G = "generateAddonFiles h s p ufs smart w"
  obtain w' where G: "?G = gateway_miss h s p ps k w'" and fr: "calls w' = calls w" "storage w' = storage w"
    using gateway_on_miss [OF ps k miss] by blast
  show ?thesis
  proof (cases "pass_result h (calls w) (initial_request s p ps)")
    case (Inl e)
    with gateway_miss_first_fails [of h w' s p ps e k] fr G
    have "calls (snd ?G) = calls w @ initial_request s p ps # []" by simp
    then show ?thesis by blast
  next
    case (Inr r1)
    show ?thesis
    proof (cases "no_files r1")
      case True
      with Inr gateway_miss_first_empty [of h w' s p ps r1 k] fr G
      have "calls (snd ?G) = calls w @ initial_request s p ps # []" by simp
      then show ?thesis by blast
    next
      case False
      from gateway_after_miss(2) [OF ps k miss Inr False]
      have "calls (snd ?G) = calls w @ initial_request s p ps # [verification_request p r1]" by simp
      then show ?thesis by blast
    qed
  qed
qed

lemma gateway_generates_again:
  assumes ps: "fst (gateway_parts h ufs smart w) = Inr ps"
    and k: "gateway_cacheKey h s p ps = Inr k"
    and miss: "fst (getFromCache (jsonParse h) k (storage w) cons) = Inr None"
    and st: "storage (snd (generateAddonFiles h s p ufs smart w)) = storage w"
  shows "\<exists>rest. calls (snd (generateAddonFiles h s p ufs smart (snd (generateAddonFiles h s p ufs smart w))))
           = calls (snd (generateAddonFiles h s p ufs smart w)) @ initial_request s p ps # rest"
proof -
  let ?w2 = "snd (generateAddonFiles h s p ufs smart w)"
  have ps2: "fst (gateway_parts h ufs smart ?w2) = Inr ps"
    using gateway_parts_fst [of h ufs smart ?w2 w] ps by simp
  have miss2: "fst (getFromCache (jsonParse h) k (storage ?w2) cons) = Inr None"
    using miss unfolding st .
  from gateway_miss_calls_begin [OF ps2 k miss2] show ?thesis .
qed

lemma setItem_getItem:
  assumes "setItem st k v = Inr st'"
  shows "getItem st' k = Inr (Some v)"
  using assms
  by (auto simp: setItem_def getItem_def Let_def update_Some_unfold split: if_splits)

lemma demo_parts: "fst (gateway_parts (demo_host a b) [] False w) = Inr []"
  by (simp add: gateway_parts_def)

lemma demo_cacheKey: "gateway_cacheKey (demo_host a b) ''sys'' ''prompt'' [] = Inr demo_key"
  by (simp add: gateway_cacheKey_def partIdentifier_def generateCacheKey_eq demo_key_def demo_host_def)

lemma demo_miss: "fst (getFromCache (jsonParse (demo_host a b)) demo_key (storage (demo_world q)) []) = Inr None"
  by (simp add: getFromCache_fst getFromCache_try_def getItem_def demo_storage_def demo_world_def)

text \<open>
  C1 (as amended). Let the content parts of the inputs be \<open>ps\<close> and the key derived from the
  system instruction, the prompt and the fingerprint of \<open>ps\<close> be \<open>k\<close>. If the cache returns
  a value under \<open>k\<close>, the gateway returns that value, calls the generator not at all and leaves
  storage as it is. If the cache misses and the gateway completes with a result, the gateway has
  attempted to store that result under the same \<open>k\<close>: storage is what \<open>setInCache\<close> leaves,
  the written storage when serialisation and the write succeed, the old storage when either
  fails. When they succeed and the stored item parses back to the result, the same call issued
  again returns the result and calls the generator not at all. When serialisation or the write
  fails, storage is unchanged and the same call issued again calls the generator again,
  starting with the initial request.
\<close>

theorem gateway_cache_hit_and_store:
  assumes ps: "fst (gateway_parts h ufs smart w) = Inr ps"
    and k: "gateway_cacheKey h s p ps = Inr k"
  shows
   "(\<forall>v. fst (getFromCache (jsonParse h) k (storage w) cons) = Inr (Some v)
        \<longrightarrow> fst (generateAddonFiles h s p ufs smart w) = Inr v
          \<and> calls (snd (generateAddonFiles h s p ufs smart w)) = calls w
          \<and> storage (snd (generateAddonFiles h s p ufs smart w)) = storage w)
    \<and> (\<forall>r. fst (getFromCache (jsonParse h) k (storage w) cons) = Inr None
            \<and> fst (generateAddonFiles h s p ufs smart w) = Inr r
        \<longrightarrow> storage (snd (generateAddonFiles h s p ufs smart w))
              = (case setInCache_try (jsonStringify h) k r (storage w) of
                   Inr st' \<Rightarrow> st' | Inl e \<Rightarrow> storage w)
          \<and> (\<forall>item st'. jsonStringify h r = Some item \<and> setItem (storage w) k item = Inr st'
                  \<and> item \<noteq> [] \<and> jsonParse h item = Some r
                \<longrightarrow> fst (generateAddonFiles h s p ufs smart (snd (generateAddonFiles h s p ufs smart w))) = Inr r
                  \<and> calls (snd (generateAddonFiles h s p ufs smart (snd (generateAddonFiles h s p ufs smart w))))
                      = calls (snd (generateAddonFiles h s p ufs smart w))))
    \<and> (\<forall>r e. fst (getFromCache (jsonParse h) k (storage w) cons) = Inr None
            \<and> fst (generateAddonFiles h s p ufs smart w) = Inr r
            \<and> setInCache_try (jsonStringify h) k r (storage w) = Inl e
        \<longrightarrow> storage (snd (generateAddonFiles h s p ufs smart w)) = storage w
          \<and> (\<exists>rest. calls (snd (generateAddonFiles h s p ufs smart (snd (generateAddonFiles h s p ufs smart w))))
                = calls (snd (generateAddonFiles h s p ufs smart w)) @ initial_request s p ps # rest))"
proof -
  let ?G = "generateAddonFiles h s p ufs smart w"
  have hit: "\<forall>v. fst (getFromCache (jsonParse h) k (storage w) cons) = Inr (Some v)
        \<longrightarrow> fst ?G = Inr v \<and> calls (snd ?G) = calls w \<and> storage (snd ?G) = storage w"
    using gateway_on_hit [OF ps k] by blast
  have store: "\<forall>r. fst (getFromCache (jsonParse h) k (storage w) cons) = Inr None \<and> fst ?G = Inr r
        \<longrightarrow> storage (snd ?G)
              = (case setInCache_try (jsonStringify h) k r (storage w) of
                   Inr st' \<Rightarrow> st' | Inl e \<Rightarrow> storage w)
          \<and> (\<forall>item st'. jsonStringify h r = Some item \<and> setItem (storage w) k item = Inr st'
                  \<and> item \<noteq> [] \<and> jsonParse h item = Some r
                \<longrightarrow> fst (generateAddonFiles h s p ufs smart (snd ?G)) = Inr r
                  \<and> calls (snd (generateAddonFiles h s p ufs smart (snd ?G))) = calls (snd ?G))"
  proof (intro allI impI)
    fix r assume a: "fst (getFromCache (jsonParse h) k (storage w) cons) = Inr None \<and> fst ?G = Inr r"
    then have miss: "fst (getFromCache (jsonParse h) k (storage w) cons) = Inr None"
      and ok: "fst ?G = Inr r" by simp_all
    from gateway_miss_success_cases [OF ps k miss ok]
    obtain r1 r2 where r1: "pass_result h (calls w) (initial_request s p ps) = Inr r1" and nf1: "\<not> no_files r1"
      and r2: "pass_result h (calls w @ [initial_request s p ps]) (verification_request p r1) = Inr r2"
      and nf2: "\<not> no_files r2"
      and r: "r = r2\<lparr>assetMappings := assetMappings r1, summaryReport := summaryReport r1\<rparr>"
      by blast
    have st: "storage (snd ?G)
              = (case setInCache_try (jsonStringify h) k r (storage w) of
                   Inr st' \<Rightarrow> st' | Inl e \<Rightarrow> storage w)"
      using gateway_after_miss(3) [OF ps k miss r1 nf1] r2 nf2 r by simp
    have later: "\<forall>item st'. jsonStringify h r = Some item \<and> setItem (storage w) k item = Inr st'
                  \<and> item \<noteq> [] \<and> jsonParse h item = Some r
                \<longrightarrow> fst (generateAddonFiles h s p ufs smart (snd ?G)) = Inr r
                  \<and> calls (snd (generateAddonFiles h s p ufs smart (snd ?G))) = calls (snd ?G)"
    proof (intro allI impI)
      fix item st'
      assume b: "jsonStringify h r = Some item \<and> setItem (storage w) k item = Inr st'
                  \<and> item \<noteq> [] \<and> jsonParse h item = Some r"
      then have "storage (snd ?G) = st'" using st by (simp add: setInCache_try_def)
      moreover from b have "setItem (storage w) k item = Inr st'" by simp
      then have "getItem st' k = Inr (Some item)" by (rule setItem_getItem)
      ultimately have h2: "fst (getFromCache (jsonParse h) k (storage (snd ?G)) []) = Inr (Some r)"
        using b by (simp add: getFromCache_fst getFromCache_try_def)
      have ps2: "fst (gateway_parts h ufs smart (snd ?G)) = Inr ps"
        using gateway_parts_fst [of h ufs smart "snd ?G" w] ps by simp
      from gateway_on_hit [OF ps2 k h2]
      show "fst (generateAddonFiles h s p ufs smart (snd ?G)) = Inr r
                  \<and> calls (snd (generateAddonFiles h s p ufs smart (snd ?G))) = calls (snd ?G)"
        by simp
    qed
    from st later show "storage (snd ?G)
              = (case setInCache_try (jsonStringify h) k r (storage w) of
                   Inr st' \<Rightarrow> st' | Inl e \<Rightarrow> storage w)
          \<and> (\<forall>item st'. jsonStringify h r = Some item \<and> setItem (storage w) k item = Inr st'
                  \<and> item \<noteq> [] \<and> jsonParse h item = Some r
                \<longrightarrow> fst (generateAddonFiles h s p ufs smart (snd ?G)) = Inr r
                  \<and> calls (snd (generateAddonFiles h s p ufs smart (snd ?G))) = calls (snd ?G))"
      by (rule conjI)
  qed
  have again: "\<forall>r e. fst (getFromCache (jsonParse h) k (storage w) cons) = Inr None \<and> fst ?G = Inr r
            \<and> setInCache_try (jsonStringify h) k r (storage w) = Inl e
        \<longrightarrow> storage (snd ?G) = storage w
          \<and> (\<exists>rest. calls (snd (generateAddonFiles h s p ufs smart (snd ?G)))
                = calls (snd ?G) @ initial_request s p ps # rest)"
  proof (intro allI impI)
    fix r e
    assume a: "fst (getFromCache (jsonParse h) k (storage w) cons) = Inr None \<and> fst ?G = Inr r
            \<and> setInCache_try (jsonStringify h) k r (storage w) = Inl e"
    then have miss: "fst (getFromCache (jsonParse h) k (storage w) cons) = Inr None"
      and ok: "fst ?G = Inr r"
      and fail: "setInCache_try (jsonStringify h) k r (storage w) = Inl e" by simp_all
    from store miss ok have "storage (snd ?G)
              = (case setInCache_try (jsonStringify h) k r (storage w) of
                   Inr st' \<Rightarrow> st' | Inl e \<Rightarrow> storage w)" by blast
    then have st: "storage (snd ?G) = storage w" by (simp add: fail)
    from st gateway_generates_again [OF ps k miss st]
    show "storage (snd ?G) = storage w
          \<and> (\<exists>rest. calls (snd (generateAddonFiles h s p ufs smart (snd ?G)))
                = calls (snd ?G) @ initial_request s p ps # rest)"
      by (rule conjI)
  qed
  show ?thesis by (rule conjI [OF hit conjI [OF store again]])
qed

theorem gateway_cache_hit_and_store_witness:
  "fst (generateAddonFiles (demo_host ''initial'' ''verified'') ''sys'' ''prompt'' [] False demo_cached_world)
     = Inr demo_final
   \<and> calls (snd (generateAddonFiles (demo_host ''initial'' ''verified'') ''sys'' ''prompt'' [] False demo_cached_world))
     = []
   \<and> fst (generateAddonFiles (demo_host ''initial'' ''verified'') ''sys'' ''prompt'' [] False
            (snd (generateAddonFiles (demo_host ''initial'' ''verified'') ''sys'' ''prompt'' [] False
                    (demo_world 1000))))
     = Inr demo_final
   \<and> calls (snd (generateAddonFiles (demo_host ''initial'' ''verified'') ''sys'' ''prompt'' [] False
            (snd (generateAddonFiles (demo_host ''initial'' ''verified'') ''sys'' ''prompt'' [] False
                    (demo_world 1000)))))
     = calls (snd (generateAddonFiles (demo_host ''initial'' ''verified'') ''sys'' ''prompt'' [] False
                    (demo_world 1000)))
   \<and> storage (snd (generateAddonFiles (demo_host ''initial'' ''verified'') ''sys'' ''prompt'' [] False
                    (demo_world 0)))
     = storage (demo_world 0)
   \<and> (\<exists>rest. calls (snd (generateAddonFiles (demo_host ''initial'' ''verified'') ''sys'' ''prompt'' [] False
            (snd (generateAddonFiles (demo_host ''initial'' ''verified'') ''sys'' ''prompt'' [] False
                    (demo_world 0)))))
     = calls (snd (generateAddonFiles (demo_host ''initial'' ''verified'') ''sys'' ''prompt'' [] False
                    (demo_world 0)))
       @ initial_request ''sys'' ''prompt'' [] # rest)"
proof -
  let ?h = "demo_host ''initial'' ''verified''"
  let ?st = "\<lparr>entries = [(demo_key, ''final'')], accessible = True, quota = 1000\<rparr>"
  have hit: "fst (getFromCache (jsonParse ?h) demo_key (storage demo_cached_world) []) = Inr (Some demo_final)"
    by (simp add: getFromCache_fst getFromCache_try_def getItem_def demo_cached_world_def demo_host_def
        demo_parse_def)
  have ok: "fst (generateAddonFiles ?h ''sys'' ''prompt'' [] False (demo_world 1000)) = Inr demo_final"
    by code_simp
  have str: "jsonStringify ?h demo_final = Some ''final''"
    by (simp add: demo_host_def demo_stringify_def)
  have len: "length demo_key = 64"
    by (simp add: demo_key_def lower_hex_length demo_digest_def)
  have set: "setItem (storage (demo_world 1000)) demo_key ''final'' = Inr ?st"
    by (simp add: setItem_def demo_world_def demo_storage_def usage_def len)
  have par: "jsonParse ?h ''final'' = Some demo_final"
    by (simp add: demo_host_def demo_parse_def)
  from gateway_cache_hit_and_store [OF demo_parts demo_cacheKey, of "''initial''" "''verified''" demo_cached_world "[]"]
    hit
  have A: "fst (generateAddonFiles ?h ''sys'' ''prompt'' [] False demo_cached_world) = Inr demo_final
     \<and> calls (snd (generateAddonFiles ?h ''sys'' ''prompt'' [] False demo_cached_world)) = []"
    by (simp add: demo_cached_world_def)
  from gateway_cache_hit_and_store [OF demo_parts demo_cacheKey, of "''initial''" "''verified''" "demo_world 1000" "[]"]
    demo_miss [of "''initial''" "''verified''" 1000] ok str set par
  have B: "fst (generateAddonFiles ?h ''sys'' ''prompt'' [] False
            (snd (generateAddonFiles ?h ''sys'' ''prompt'' [] False (demo_world 1000)))) = Inr demo_final
     \<and> calls (snd (generateAddonFiles ?h ''sys'' ''prompt'' [] False
            (snd (generateAddonFiles ?h ''sys'' ''prompt'' [] False (demo_world 1000)))))
       = calls (snd (generateAddonFiles ?h ''sys'' ''prompt'' [] False (demo_world 1000)))"
    by simp
  have ok0: "fst (generateAddonFiles ?h ''sys'' ''prompt'' [] False (demo_world 0)) = Inr demo_final"
    by code_simp
  have fail0: "setInCache_try (jsonStringify ?h) demo_key demo_final (storage (demo_world 0))
      = Inl QuotaExceededError"
    by (simp add: setInCache_try_def str setItem_def demo_world_def demo_storage_def usage_def)
  from gateway_cache_hit_and_store
      [OF demo_parts demo_cacheKey, of "''initial''" "''verified''" "demo_world 0" "[]",
       THEN conjunct2, THEN conjunct2]
    demo_miss [of "''initial''" "''verified''" 0] ok0 fail0
  have C: "storage (snd (generateAddonFiles ?h ''sys'' ''prompt'' [] False (demo_world 0)))
       = storage (demo_world 0)
     \<and> (\<exists>rest. calls (snd (generateAddonFiles ?h ''sys'' ''prompt'' [] False
            (snd (generateAddonFiles ?h ''sys'' ''prompt'' [] False (demo_world 0)))))
       = calls (snd (generateAddonFiles ?h ''sys'' ''prompt'' [] False (demo_world 0)))
         @ initial_request ''sys'' ''prompt'' [] # rest)"
    by blast
  from A B C show ?thesis by simp
qed

text \<open>
  C1 as stated fails where it says that the result of every successful miss is stored and
  found by the next identical call. With session storage at its quota the write is refused and
  swallowed: the first call succeeds with two calls of the generator, and the identical second
  call misses again and makes two more.
\<close>

theorem gateway_store_not_guaranteed:
  "fst (generateAddonFiles (demo_host ''initial'' ''verified'') ''sys'' ''prompt'' [] False (demo_world 0))
     = Inr demo_final
   \<and> length (calls (snd (generateAddonFiles (demo_host ''initial'' ''verified'') ''sys'' ''prompt'' [] False
                          (demo_world 0)))) = 2
   \<and> fst (generateAddonFiles (demo_host ''initial'' ''verified'') ''sys'' ''prompt'' [] False
            (snd (generateAddonFiles (demo_host ''initial'' ''verified'') ''sys'' ''prompt'' [] False
                    (demo_world 0))))
     = Inr demo_final
   \<and> length (calls (snd (generateAddonFiles (demo_host ''initial'' ''verified'') ''sys'' ''prompt'' [] False
            (snd (generateAddonFiles (demo_host ''initial'' ''verified'') ''sys'' ''prompt'' [] False
                    (demo_world 0)))))) = 4"
  by code_simp

text \<open>
  C2. On a cache miss the gateway calls the generator a second time exactly when the first pass
  returns at least one file. When the first call fails, or returns no file, the gateway throws
  after that one call, in the second case with the initial-step error. When the first pass
  returns a file, the calls made when the gateway finishes, however it finishes, are the
  initial request and then the verification request, whose temperature is 0; and when that
  second pass returns no file the gateway throws the verification-step error, which is a
  different error from the initial-step one.
\<close>

theorem verification_pass_exactly_when_files:
  assumes ps: "fst (gateway_parts h ufs smart w) = Inr ps"
    and k: "gateway_cacheKey h s p ps = Inr k"
    and miss: "fst (getFromCache (jsonParse h) k (storage w) cons) = Inr None"
  shows
   "(\<forall>e. pass_result h (calls w) (initial_request s p ps) = Inl e
        \<longrightarrow> fst (generateAddonFiles h s p ufs smart w) = Inl e
          \<and> calls (snd (generateAddonFiles h s p ufs smart w)) = calls w @ [initial_request s p ps])
    \<and> (\<forall>r1. pass_result h (calls w) (initial_request s p ps) = Inr r1 \<and> no_files r1
        \<longrightarrow> fst (generateAddonFiles h s p ufs smart w) = Inl (Error initial_empty_message)
          \<and> calls (snd (generateAddonFiles h s p ufs smart w)) = calls w @ [initial_request s p ps])
    \<and> (\<forall>r1. pass_result h (calls w) (initial_request s p ps) = Inr r1 \<and> \<not> no_files r1
        \<longrightarrow> calls (snd (generateAddonFiles h s p ufs smart w))
              = calls w @ [initial_request s p ps, verification_request p r1]
          \<and> temperature (verification_request p r1) = 0
          \<and> (\<forall>r2. pass_result h (calls w @ [initial_request s p ps]) (verification_request p r1) = Inr r2
                   \<and> no_files r2
                \<longrightarrow> fst (generateAddonFiles h s p ufs smart w) = Inl (Error verification_empty_message)))
    \<and> initial_empty_message \<noteq> verification_empty_message"
proof -
  let ?G = "generateAddonFiles h s p ufs smart w"
  let ?first = "pass_result h (calls w) (initial_request s p ps)"
  obtain w' where G: "?G = gateway_miss h s p ps k w'" and fr: "calls w' = calls w" "storage w' = storage w"
    using gateway_on_miss [OF ps k miss] by blast
  have a: "\<forall>e. ?first = Inl e \<longrightarrow> fst ?G = Inl e \<and> calls (snd ?G) = calls w @ [initial_request s p ps]"
    using gateway_miss_first_fails [of h w' s p ps _ k] fr G by simp
  have b: "\<forall>r1. ?first = Inr r1 \<and> no_files r1
        \<longrightarrow> fst ?G = Inl (Error initial_empty_message) \<and> calls (snd ?G) = calls w @ [initial_request s p ps]"
    using gateway_miss_first_empty [of h w' s p ps _ k] fr G by simp
  have c: "\<forall>r1. ?first = Inr r1 \<and> \<not> no_files r1
        \<longrightarrow> calls (snd ?G) = calls w @ [initial_request s p ps, verification_request p r1]
          \<and> temperature (verification_request p r1) = 0
          \<and> (\<forall>r2. pass_result h (calls w @ [initial_request s p ps]) (verification_request p r1) = Inr r2
                   \<and> no_files r2
                \<longrightarrow> fst ?G = Inl (Error verification_empty_message))"
  proof (intro allI impI)
    fix r1 assume r1: "?first = Inr r1 \<and> \<not> no_files r1"
    then have f: "?first = Inr r1" and nf: "\<not> no_files r1" by simp_all
    show "calls (snd ?G) = calls w @ [initial_request s p ps, verification_request p r1]
          \<and> temperature (verification_request p r1) = 0
          \<and> (\<forall>r2. pass_result h (calls w @ [initial_request s p ps]) (verification_request p r1) = Inr r2
                   \<and> no_files r2
                \<longrightarrow> fst ?G = Inl (Error verification_empty_message))"
      using gateway_after_miss(1,2) [OF ps k miss f nf]
      by (simp add: verification_request_def)
  qed
  from a b c messages_differ show ?thesis by blast
qed

theorem verification_pass_exactly_when_files_witness:
  "calls (snd (generateAddonFiles (demo_host ''initial'' ''verified'') ''sys'' ''prompt'' [] False (demo_world 1000)))
     = [initial_request ''sys'' ''prompt'' [], verification_request ''prompt'' demo_initial]
   \<and> temperature (verification_request ''prompt'' demo_initial) = 0
   \<and> fst (generateAddonFiles (demo_host ''empty'' ''verified'') ''sys'' ''prompt'' [] False (demo_world 1000))
     = Inl (Error initial_empty_message)
   \<and> calls (snd (generateAddonFiles (demo_host ''empty'' ''verified'') ''sys'' ''prompt'' [] False (demo_world 1000)))
     = [initial_request ''sys'' ''prompt'' []]
   \<and> fst (generateAddonFiles (demo_host ''initial'' ''empty'') ''sys'' ''prompt'' [] False (demo_world 1000))
     = Inl (Error verification_empty_message)
   \<and> fst (generateAddonFiles (demo_host ''junk'' ''verified'') ''sys'' ''prompt'' [] False (demo_world 1000))
     = Inl (Error unparseable_message)
   \<and> calls (snd (generateAddonFiles (demo_host ''junk'' ''verified'') ''sys'' ''prompt'' [] False (demo_world 1000)))
     = [initial_request ''sys'' ''prompt'' []]"
proof -
  have c0: "calls (demo_world 1000) = []" by (simp add: demo_world_def)
  have f1: "pass_result (demo_host ''initial'' ''verified'') [] (initial_request ''sys'' ''prompt'' []) = Inr demo_initial"
    by code_simp
  have f2: "pass_result (demo_host ''empty'' ''verified'') [] (initial_request ''sys'' ''prompt'' []) = Inr demo_empty"
    by code_simp
  have f3: "pass_result (demo_host ''initial'' ''empty'') [] (initial_request ''sys'' ''prompt'' []) = Inr demo_initial"
    by code_simp
  have f4: "pass_result (demo_host ''junk'' ''verified'') [] (initial_request ''sys'' ''prompt'' [])
     = Inl (Error unparseable_message)"
    by code_simp
  have s3: "pass_result (demo_host ''initial'' ''empty'') [initial_request ''sys'' ''prompt'' []]
      (verification_request ''prompt'' demo_initial) = Inr demo_empty"
    by code_simp
  have n: "\<not> no_files demo_initial" "no_files demo_empty" by code_simp+
  note t = verification_pass_exactly_when_files [OF demo_parts demo_cacheKey demo_miss]
  from t [of "''initial''" "''verified''" 1000] f1 n c0
  have A: "calls (snd (generateAddonFiles (demo_host ''initial'' ''verified'') ''sys'' ''prompt'' [] False (demo_world 1000)))
     = [initial_request ''sys'' ''prompt'' [], verification_request ''prompt'' demo_initial]
   \<and> temperature (verification_request ''prompt'' demo_initial) = 0"
    by simp
  from t [of "''empty''" "''verified''" 1000] f2 n c0
  have B: "fst (generateAddonFiles (demo_host ''empty'' ''verified'') ''sys'' ''prompt'' [] False (demo_world 1000))
     = Inl (Error initial_empty_message)
   \<and> calls (snd (generateAddonFiles (demo_host ''empty'' ''verified'') ''sys'' ''prompt'' [] False (demo_world 1000)))
     = [initial_request ''sys'' ''prompt'' []]"
    by simp
  from t [of "''initial''" "''empty''" 1000] f3 s3 n c0
  have C: "fst (generateAddonFiles (demo_host ''initial'' ''empty'') ''sys'' ''prompt'' [] False (demo_world 1000))
     = Inl (Error verification_empty_message)"
    by simp
  from t [of "''junk''" "''verified''" 1000] f4 c0
  have D: "fst (generateAddonFiles (demo_host ''junk'' ''verified'') ''sys'' ''prompt'' [] False (demo_world 1000))
     = Inl (Error unparseable_message)
   \<and> calls (snd (generateAddonFiles (demo_host ''junk'' ''verified'') ''sys'' ''prompt'' [] False (demo_world 1000)))
     = [initial_request ''sys'' ''prompt'' []]"
    by simp
  from A B C D show ?thesis by simp
qed

text \<open>
  C3. When the gateway completes with a result after a cache miss, the result's files are those
  of the verification pass, and its asset mappings and its summary report are those of the first
  pass, whatever the verification pass returned in those fields.
\<close>

theorem final_result_fields:
  assumes ps: "fst (gateway_parts h ufs smart w) = Inr ps"
    and k: "gateway_cacheKey h s p ps = Inr k"
    and miss: "fst (getFromCache (jsonParse h) k (storage w) cons) = Inr None"
    and ok: "fst (generateAddonFiles h s p ufs smart w) = Inr final"
  shows "\<exists>r1 r2. pass_result h (calls w) (initial_request s p ps) = Inr r1
           \<and> pass_result h (calls w @ [initial_request s p ps]) (verification_request p r1) = Inr r2
           \<and> files final = files r2
           \<and> assetMappings final = assetMappings r1
           \<and> summaryReport final = summaryReport r1"
proof -
  from gateway_miss_success_cases [OF ps k miss ok]
  obtain r1 r2 where "pass_result h (calls w) (initial_request s p ps) = Inr r1"
    "pass_result h (calls w @ [initial_request s p ps]) (verification_request p r1) = Inr r2"
    "final = r2\<lparr>assetMappings := assetMappings r1, summaryReport := summaryReport r1\<rparr>"
    by blast
  then show ?thesis by (intro exI [of _ r1] exI [of _ r2]) simp
qed

theorem final_result_fields_witness:
  "fst (generateAddonFiles (demo_host ''initial'' ''verified'') ''sys'' ''prompt'' [] False (demo_world 1000))
     = Inr demo_final
   \<and> (\<exists>r1 r2. pass_result (demo_host ''initial'' ''verified'') [] (initial_request ''sys'' ''prompt'' []) = Inr r1
        \<and> pass_result (demo_host ''initial'' ''verified'') [initial_request ''sys'' ''prompt'' []]
             (verification_request ''prompt'' r1) = Inr r2
        \<and> files demo_final = files r2
        \<and> assetMappings demo_final = assetMappings r1
        \<and> summaryReport demo_final = summaryReport r1)"
proof -
  have ok: "fst (generateAddonFiles (demo_host ''initial'' ''verified'') ''sys'' ''prompt'' [] False (demo_world 1000))
     = Inr demo_final"
    by code_simp
  have c0: "calls (demo_world 1000) = []" by (simp add: demo_world_def)
  from final_result_fields [OF demo_parts demo_cacheKey demo_miss ok] ok c0
  show ?thesis by simp
qed

section \<open>Archive assembly: the loop against the resolver\<close>

lemma find_filter_imp:
  assumes "\<And>x. P x \<Longrightarrow> Q x"
  shows "find P (filter Q xs) = find P xs"
  using assms by (induction xs) auto

lemma find_as_filter: "find Q xs = (case filter Q xs of [] \<Rightarrow> None | x # _ \<Rightarrow> Some x)"
  by (induction xs) auto

lemma looseMatches_suffix:
  "looseMatches ufs m = filter (\<lambda>uf. suffix (originalPath m) (name (ufile uf))) ufs"
  by (simp add: looseMatches_def endsWith_suffix)

lemma exact_in_looseMatches:
  "find (\<lambda>uf. name (ufile uf) = originalPath m) (looseMatches ufs m)
     = find (\<lambda>uf. name (ufile uf) = originalPath m) ufs"
  unfolding looseMatches_suffix by (rule find_filter_imp) simp

lemma loose_target_resolve:
  "fst (loose_target ufs m cons) =
     (case find (\<lambda>uf. name (ufile uf) = originalPath m) ufs of
        Some exactMatch \<Rightarrow> Some (ufile exactMatch)
      | None \<Rightarrow>
          (case find (\<lambda>uf. suffix (originalPath m) (name (ufile uf))) ufs of
             Some first \<Rightarrow> Some (ufile first)
           | None \<Rightarrow> None))"
proof (cases "looseMatches ufs m")
  case Nil
  then have a: "find (\<lambda>uf. suffix (originalPath m) (name (ufile uf))) ufs = None"
    by (simp add: find_as_filter [of _ ufs] looseMatches_suffix)
  from Nil exact_in_looseMatches [of m ufs]
  have b: "find (\<lambda>uf. name (ufile uf) = originalPath m) ufs = None" by simp
  from Nil a b show ?thesis by (simp add: loose_target_def)
next
  case (Cons first others)
  then have a: "find (\<lambda>uf. suffix (originalPath m) (name (ufile uf))) ufs = Some first"
    by (simp add: find_as_filter [of _ ufs] looseMatches_suffix)
  from Cons exact_in_looseMatches [of m ufs]
  have b: "find (\<lambda>uf. name (ufile uf) = originalPath m) (first # others)
     = find (\<lambda>uf. name (ufile uf) = originalPath m) ufs" by simp
  show ?thesis
    unfolding loose_target_def Cons list.case b a
    by (simp split: option.split)
qed

lemma loose_target_console:
  "snd (loose_target ufs m cons) =
     (if find (\<lambda>uf. name (ufile uf) = originalPath m) ufs = None \<and> 1 < length (looseMatches ufs m)
      then cons @ [ambiguity_warning (looseMatches ufs m) m] else cons)"
proof (cases "looseMatches ufs m")
  case Nil
  then show ?thesis by (simp add: loose_target_def)
next
  case (Cons first others)
  from Cons exact_in_looseMatches [of m ufs]
  have b: "find (\<lambda>uf. name (ufile uf) = originalPath m) (first # others)
     = find (\<lambda>uf. name (ufile uf) = originalPath m) ufs" by simp
  show ?thesis
    unfolding loose_target_def Cons list.case b
    by (simp split: option.split)
qed

lemma search_containers_skip:
  assumes "container_hit L m uf = None"
  shows "\<exists>c'. search_containers L m (uf # ufs) z c = search_containers L m ufs z (c @ c')"
proof (cases "is_container_name (name (ufile uf))")
  case False
  then have "search_containers L m (uf # ufs) z c = search_containers L m ufs z (c @ [])" by simp
  then show ?thesis by blast
next
  case True
  show ?thesis
  proof (cases "L (ufile uf)")
    case None
    with True have "search_containers L m (uf # ufs) z c = search_containers L m ufs z (c @ [zip_read_error uf m])"
      by simp
    then show ?thesis by blast
  next
    case (Some zipEntries)
    show ?thesis
    proof (cases "find (entry_matches m) zipEntries")
      case None
      with True Some have "search_containers L m (uf # ufs) z c = search_containers L m ufs z (c @ [])" by simp
      then show ?thesis by blast
    next
      case (Some assetFile)
      with True \<open>L (ufile uf) = Some zipEntries\<close> assms have "blob assetFile = None"
        by (simp add: container_hit_def)
      with True \<open>L (ufile uf) = Some zipEntries\<close> Some
      have "search_containers L m (uf # ufs) z c = search_containers L m ufs z (c @ [zip_read_error uf m])"
        by simp
      then show ?thesis by blast
    qed
  qed
qed

lemma search_containers_take:
  assumes "container_hit L m uf = Some b"
  shows "search_containers L m (uf # ufs) z c = (True, zip_file (newPath m) (BlobData b) z, c)"
  using assms
  by (auto simp: container_hit_def split: if_splits option.splits)

lemma search_containers_hits:
  "fst (search_containers L m ufs z c) = (List.map_filter (container_hit L m) ufs \<noteq> [])
   \<and> fst (snd (search_containers L m ufs z c)) =
       (case List.map_filter (container_hit L m) ufs of
          [] \<Rightarrow> z
        | b # _ \<Rightarrow> zip_file (newPath m) (BlobData b) z)
   \<and> (\<exists>es. snd (snd (search_containers L m ufs z c)) = c @ es)"
proof (induction ufs arbitrary: c)
  case Nil
  show ?case by (simp add: map_filter_simps)
next
  case (Cons uf ufs)
  show ?case
  proof (cases "container_hit L m uf")
    case None
    from search_containers_skip [OF None, of ufs z c]
    obtain c' where sk: "search_containers L m (uf # ufs) z c = search_containers L m ufs z (c @ c')"
      by blast
    from Cons.IH [of "c @ c'"] obtain es where
      es: "snd (snd (search_containers L m ufs z (c @ c'))) = (c @ c') @ es" by blast
    then have "\<exists>es. snd (snd (search_containers L m ufs z (c @ c'))) = c @ es" by simp
    with Cons.IH [of "c @ c'"] None show ?thesis
      unfolding sk by (simp add: map_filter_simps del: search_containers.simps)
  next
    case (Some b)
    then show ?thesis
      unfolding search_containers_take [OF Some]
      by (simp add: map_filter_simps del: search_containers.simps)
  qed
qed

lemma add_mapping_resolve:
  "fst (add_mapping L ufs m (z, c)) =
     (case resolve L ufs m of None \<Rightarrow> z | Some d \<Rightarrow> zip_file (newPath m) d z)"
proof (cases "fst (loose_target ufs m c)")
  case (Some targetFile)
  then obtain c1 where lt: "loose_target ufs m c = (Some targetFile, c1)"
    by (cases "loose_target ufs m c") simp
  from Some have "resolve L ufs m = Some (FileData targetFile)"
    unfolding loose_target_resolve resolve_def by (simp split: option.splits)
  with lt show ?thesis by (simp add: add_mapping_def)
next
  case None
  then obtain c1 where lt: "loose_target ufs m c = (None, c1)"
    by (cases "loose_target ufs m c") simp
  from None have r: "resolve L ufs m =
      (case List.map_filter (container_hit L m) ufs of [] \<Rightarrow> None | b # _ \<Rightarrow> Some (BlobData b))"
    unfolding loose_target_resolve resolve_def by (simp split: option.splits)
  obtain found z' c2 where sc: "search_containers L m ufs z c1 = (found, z', c2)"
    by (cases "search_containers L m ufs z c1") blast
  with search_containers_hits [of L m ufs z c1]
  have "z' = (case List.map_filter (container_hit L m) ufs of
          [] \<Rightarrow> z | b # _ \<Rightarrow> zip_file (newPath m) (BlobData b) z)" by simp
  with lt sc r show ?thesis
    by (simp add: add_mapping_def split: list.split)
qed

lemma add_mapping_console:
  "\<exists>es. snd (add_mapping L ufs m (z, c)) = c @ es
        \<and> (resolve L ufs m = None \<longrightarrow> es \<noteq> [] \<and> last es = not_found_warning m)"
proof (cases "fst (loose_target ufs m c)")
  case (Some targetFile)
  then obtain c1 where lt: "loose_target ufs m c = (Some targetFile, c1)"
    by (cases "loose_target ufs m c") simp
  from Some have r: "resolve L ufs m = Some (FileData targetFile)"
    unfolding loose_target_resolve resolve_def by (simp split: option.splits)
  from lt loose_target_console [of ufs m c] have "\<exists>es. c1 = c @ es" by (simp split: if_splits)
  with lt r show ?thesis by (simp add: add_mapping_def)
next
  case None
  then obtain c1 where lt: "loose_target ufs m c = (None, c1)"
    by (cases "loose_target ufs m c") simp
  from None have r: "resolve L ufs m =
      (case List.map_filter (container_hit L m) ufs of [] \<Rightarrow> None | b # _ \<Rightarrow> Some (BlobData b))"
    unfolding loose_target_resolve resolve_def by (simp split: option.splits)
  from None have nom: "looseMatches ufs m = []"
    unfolding loose_target_resolve looseMatches_suffix
    by (simp add: find_as_filter [of "\<lambda>uf. suffix (originalPath m) (name (ufile uf))"] split: option.splits list.splits)
  with lt have c1: "c1 = c" by (simp add: loose_target_def)
  obtain found z' c2 where sc: "search_containers L m ufs z c1 = (found, z', c2)"
    by (cases "search_containers L m ufs z c1") blast
  with search_containers_hits [of L m ufs z c1] c1
  obtain es where f: "found = (List.map_filter (container_hit L m) ufs \<noteq> [])" and es: "c2 = c @ es"
    by auto
  show ?thesis
  proof (cases found)
    case True
    with f r have "resolve L ufs m \<noteq> None" by (simp split: list.splits)
    with lt sc es True show ?thesis by (auto simp: add_mapping_def)
  next
    case False
    with lt sc es show ?thesis
      by (intro exI [of _ "es @ [not_found_warning m]"])
         (simp add: add_mapping_def)
  qed
qed


lemma map_of_zip_file: "map_of (zip_file p d z) = (map_of z)(p \<mapsto> d)"
  by (simp add: zip_file_def update_conv')

lemma distinct_zip_file: "distinct (map fst (zip_file p d z)) = distinct (map fst z)"
  by (auto simp: zip_file_def update_keys)

lemma map_of_fold_writes:
  "map_of (fold (\<lambda>(p, d). zip_file p d) ws z) = map_of z ++ map_of (rev ws)"
proof (induction ws arbitrary: z)
  case Nil
  show ?case by simp
next
  case (Cons w ws)
  obtain p d where w: "w = (p, d)" by (cases w)
  have "map_of (fold (\<lambda>(p, d). zip_file p d) (w # ws) z)
      = map_of (zip_file p d z) ++ map_of (rev ws)"
    using Cons.IH [of "zip_file p d z"] w by simp
  also have "\<dots> = map_of z ++ map_of (rev (w # ws))"
    by (simp add: map_of_zip_file w map_add_def fun_eq_iff split: option.split)
  finally show ?case .
qed

lemma distinct_fold_writes:
  "distinct (map fst (fold (\<lambda>(p, d). zip_file p d) ws z)) = distinct (map fst z)"
proof (induction ws arbitrary: z)
  case Nil
  show ?case by simp
next
  case (Cons w ws)
  obtain p d where w: "w = (p, d)" by (cases w)
  show ?case using Cons.IH [of "zip_file p d z"] by (simp add: w distinct_zip_file)
qed

lemma fold_generated:
  "fold (\<lambda>f z. zip_file (path f) (TextData (content f)) z) fs z
     = fold (\<lambda>(p, d). zip_file p d) (generated_writes fs) z"
  by (induction fs arbitrary: z) (simp_all add: generated_writes_def)

lemma fold_add_mapping:
  "fst (fold (add_mapping L ufs) ms (z, c))
     = fold (\<lambda>(p, d). zip_file p d) (relocation_writes L ufs ms) z"
proof (induction ms arbitrary: z c)
  case Nil
  show ?case by (simp add: relocation_writes_def map_filter_simps)
next
  case (Cons m ms)
  obtain z' c' where am: "add_mapping L ufs m (z, c) = (z', c')"
    by (cases "add_mapping L ufs m (z, c)") blast
  with add_mapping_resolve [of L ufs m z c]
  have z': "z' = (case resolve L ufs m of None \<Rightarrow> z | Some d \<Rightarrow> zip_file (newPath m) d z)" by simp
  have "fst (fold (add_mapping L ufs) (m # ms) (z, c))
      = fold (\<lambda>(p, d). zip_file p d) (relocation_writes L ufs ms) z'"
    using Cons.IH [of z' c'] am by simp
  also have "\<dots> = fold (\<lambda>(p, d). zip_file p d) (relocation_writes L ufs (m # ms)) z"
    unfolding z' by (cases "resolve L ufs m") (simp_all add: relocation_writes_def map_filter_simps)
  finally show ?case .
qed

lemma assemble_writes:
  "fst (assemble L fs ufs ms) = fold (\<lambda>(p, d). zip_file p d) (assembly_writes L fs ufs ms) []"
  by (simp add: assemble_def fold_add_mapping fold_generated assembly_writes_def)

lemma fold_add_mapping_console:
  "\<exists>es. snd (fold (add_mapping L ufs) ms (z, c)) = c @ es
        \<and> (\<forall>m \<in> set ms. resolve L ufs m = None \<longrightarrow> not_found_warning m \<in> set es)"
proof (induction ms arbitrary: z c)
  case Nil
  show ?case by simp
next
  case (Cons m ms)
  obtain z' c' where am: "add_mapping L ufs m (z, c) = (z', c')"
    by (cases "add_mapping L ufs m (z, c)") blast
  with add_mapping_console [of L ufs m z c]
  obtain es1 where es1: "c' = c @ es1"
    and nf: "resolve L ufs m = None \<longrightarrow> es1 \<noteq> [] \<and> last es1 = not_found_warning m"
    by auto
  from Cons.IH [of z' c'] obtain es2 where
    es2: "snd (fold (add_mapping L ufs) ms (z', c')) = c' @ es2"
    and all: "\<forall>m \<in> set ms. resolve L ufs m = None \<longrightarrow> not_found_warning m \<in> set es2"
    by blast
  have "resolve L ufs m = None \<longrightarrow> not_found_warning m \<in> set es1"
  proof
    assume "resolve L ufs m = None"
    with nf have ne: "es1 \<noteq> []" and l: "last es1 = not_found_warning m" by simp_all
    from ne have "last es1 \<in> set es1" by (rule last_in_set)
    then show "not_found_warning m \<in> set es1" unfolding l .
  qed
  with all es1 es2 am show ?case
    by (intro exI [of _ "es1 @ es2"]) auto
qed

lemma assemble_console:
  "\<forall>m \<in> set ms. resolve L ufs m = None \<longrightarrow> not_found_warning m \<in> set (snd (assemble L fs ufs ms))"
  using fold_add_mapping_console
    [of L ufs ms "fold (\<lambda>f z. zip_file (path f) (TextData (content f)) z) fs []" "[]"]
  by (auto simp: assemble_def)

lemma relocation_writes_unresolved:
  "relocation_writes L ufs (filter (\<lambda>m. resolve L ufs m \<noteq> None) ms) = relocation_writes L ufs ms"
  by (induction ms) (auto simp: relocation_writes_def map_filter_simps)

section \<open>Claims about asset resolution\<close>

lemma add_mapping_loose:
  assumes "fst (loose_target ufs m c) = Some f"
  shows "add_mapping L ufs m (z, c) = (zip_file (newPath m) (FileData f) z, snd (loose_target ufs m c))"
proof -
  from assms obtain c1 where "loose_target ufs m c = (Some f, c1)"
    by (cases "loose_target ufs m c") simp
  then show ?thesis by (simp add: add_mapping_def)
qed

text \<open>
  C6. For one relocation instruction, with the archive \<open>z\<close> and the console \<open>c\<close> before it:
  (1) when some uploaded input is named exactly \<open>originalPath\<close>, the first such input is written
  at \<open>newPath\<close> and nothing is logged; (2) otherwise, when some input's name ends with
  \<open>originalPath\<close>, the first such input is written, and the ambiguity warning is logged exactly
  when several names end with it; (3) otherwise the uploaded containers (\<open>.zip\<close>, \<open>.mcaddon\<close>,
  \<open>.mcpack\<close>, in any letter case) are opened in upload order and the first one that yields bytes
  supplies them, from its first entry that is not a directory and whose name ends with
  \<open>originalPath\<close>; (4) otherwise nothing is written and the not-found warning is the last
  console entry. In every case the step completes, and it agrees with \<open>resolve\<close>.
\<close>

theorem asset_resolution_order:
  "(\<forall>uf. find (\<lambda>uf. name (ufile uf) = originalPath m) ufs = Some uf
       \<longrightarrow> add_mapping L ufs m (z, c) = (zip_file (newPath m) (FileData (ufile uf)) z, c))
   \<and> (\<forall>uf. find (\<lambda>uf. name (ufile uf) = originalPath m) ufs = None
            \<and> find (\<lambda>uf. suffix (originalPath m) (name (ufile uf))) ufs = Some uf
       \<longrightarrow> add_mapping L ufs m (z, c)
            = (zip_file (newPath m) (FileData (ufile uf)) z,
               if 1 < length (filter (\<lambda>uf. suffix (originalPath m) (name (ufile uf))) ufs)
               then c @ [ambiguity_warning (filter (\<lambda>uf. suffix (originalPath m) (name (ufile uf))) ufs) m]
               else c))
   \<and> (\<forall>b bs. find (\<lambda>uf. suffix (originalPath m) (name (ufile uf))) ufs = None
            \<and> List.map_filter (container_hit L m) ufs = b # bs
       \<longrightarrow> fst (add_mapping L ufs m (z, c)) = zip_file (newPath m) (BlobData b) z)
   \<and> (find (\<lambda>uf. suffix (originalPath m) (name (ufile uf))) ufs = None
            \<and> List.map_filter (container_hit L m) ufs = []
       \<longrightarrow> fst (add_mapping L ufs m (z, c)) = z
          \<and> last (snd (add_mapping L ufs m (z, c))) = not_found_warning m)
   \<and> fst (add_mapping L ufs m (z, c))
       = (case resolve L ufs m of None \<Rightarrow> z | Some d \<Rightarrow> zip_file (newPath m) d z)"
proof -
  let ?exact = "find (\<lambda>uf. name (ufile uf) = originalPath m) ufs"
  let ?suff = "find (\<lambda>uf. suffix (originalPath m) (name (ufile uf))) ufs"
  have no_exact: "?suff = None \<Longrightarrow> ?exact = None"
    by (auto simp: find_None_iff)
  have one: "\<forall>uf. ?exact = Some uf
       \<longrightarrow> add_mapping L ufs m (z, c) = (zip_file (newPath m) (FileData (ufile uf)) z, c)"
  proof (intro allI impI)
    fix uf assume e: "?exact = Some uf"
    then have "fst (loose_target ufs m c) = Some (ufile uf)"
      by (simp add: loose_target_resolve)
    from add_mapping_loose [OF this, of L z] e
    show "add_mapping L ufs m (z, c) = (zip_file (newPath m) (FileData (ufile uf)) z, c)"
      by (simp add: loose_target_console)
  qed
  have two: "\<forall>uf. ?exact = None \<and> ?suff = Some uf
       \<longrightarrow> add_mapping L ufs m (z, c)
            = (zip_file (newPath m) (FileData (ufile uf)) z,
               if 1 < length (filter (\<lambda>uf. suffix (originalPath m) (name (ufile uf))) ufs)
               then c @ [ambiguity_warning (filter (\<lambda>uf. suffix (originalPath m) (name (ufile uf))) ufs) m]
               else c)"
  proof (intro allI impI)
    fix uf assume e: "?exact = None \<and> ?suff = Some uf"
    then have "fst (loose_target ufs m c) = Some (ufile uf)"
      by (simp add: loose_target_resolve)
    from add_mapping_loose [OF this, of L z] e
    show "add_mapping L ufs m (z, c)
            = (zip_file (newPath m) (FileData (ufile uf)) z,
               if 1 < length (filter (\<lambda>uf. suffix (originalPath m) (name (ufile uf))) ufs)
               then c @ [ambiguity_warning (filter (\<lambda>uf. suffix (originalPath m) (name (ufile uf))) ufs) m]
               else c)"
      by (simp add: loose_target_console looseMatches_suffix)
  qed
  have three: "\<forall>b bs. ?suff = None \<and> List.map_filter (container_hit L m) ufs = b # bs
       \<longrightarrow> fst (add_mapping L ufs m (z, c)) = zip_file (newPath m) (BlobData b) z"
    using no_exact by (auto simp: add_mapping_resolve resolve_def)
  have four: "?suff = None \<and> List.map_filter (container_hit L m) ufs = []
       \<longrightarrow> fst (add_mapping L ufs m (z, c)) = z
          \<and> last (snd (add_mapping L ufs m (z, c))) = not_found_warning m"
  proof
    assume a: "?suff = None \<and> List.map_filter (container_hit L m) ufs = []"
    with no_exact have r: "resolve L ufs m = None" by (simp add: resolve_def)
    from add_mapping_console [of L ufs m z c] r
    obtain es where "snd (add_mapping L ufs m (z, c)) = c @ es" "es \<noteq> []" "last es = not_found_warning m"
      by blast
    then have "last (snd (add_mapping L ufs m (z, c))) = not_found_warning m" by simp
    with r show "fst (add_mapping L ufs m (z, c)) = z
          \<and> last (snd (add_mapping L ufs m (z, c))) = not_found_warning m"
      by (simp add: add_mapping_resolve)
  qed
  from one two three four add_mapping_resolve [of L ufs m z c] show ?thesis by blast
qed

theorem asset_resolution_order_witness:
  "add_mapping demo_loadAsync [demo_png ''icons/sword.png'', demo_png ''sword.png''] (demo_mapping ''sword.png'' ''t/s.png'') ([], [])
     = ([(''t/s.png'', FileData (ufile (demo_png ''sword.png'')))], [])
   \<and> add_mapping demo_loadAsync [demo_png ''icons/sword.png'', demo_png ''ui/sword.png''] (demo_mapping ''sword.png'' ''t/s.png'') ([], [])
     = ([(''t/s.png'', FileData (ufile (demo_png ''icons/sword.png'')))],
        [ambiguity_warning [demo_png ''icons/sword.png'', demo_png ''ui/sword.png''] (demo_mapping ''sword.png'' ''t/s.png'')])
   \<and> fst (add_mapping demo_loadAsync [demo_png ''a.txt'', demo_png ''Pack.ZIP''] (demo_mapping ''sword.png'' ''t/s.png'') ([], []))
     = [(''t/s.png'', BlobData [7, 8])]
   \<and> fst (add_mapping demo_loadAsync [demo_png ''a.txt'', demo_png ''Pack.ZIP''] (demo_mapping ''shield.png'' ''t/s.png'') ([], []))
     = []
   \<and> last (snd (add_mapping demo_loadAsync [demo_png ''a.txt'', demo_png ''Pack.ZIP''] (demo_mapping ''shield.png'' ''t/s.png'') ([], [])))
     = not_found_warning (demo_mapping ''shield.png'' ''t/s.png'')"
proof -
  let ?m = "demo_mapping ''sword.png'' ''t/s.png''"
  let ?m2 = "demo_mapping ''shield.png'' ''t/s.png''"
  have e1: "find (\<lambda>uf. name (ufile uf) = originalPath ?m) [demo_png ''icons/sword.png'', demo_png ''sword.png'']
      = Some (demo_png ''sword.png'')"
    by (simp add: demo_png_def demo_mapping_def)
  have e2: "find (\<lambda>uf. name (ufile uf) = originalPath ?m) [demo_png ''icons/sword.png'', demo_png ''ui/sword.png''] = None
     \<and> find (\<lambda>uf. suffix (originalPath ?m) (name (ufile uf))) [demo_png ''icons/sword.png'', demo_png ''ui/sword.png'']
      = Some (demo_png ''icons/sword.png'')
     \<and> filter (\<lambda>uf. suffix (originalPath ?m) (name (ufile uf))) [demo_png ''icons/sword.png'', demo_png ''ui/sword.png'']
      = [demo_png ''icons/sword.png'', demo_png ''ui/sword.png'']"
    by (simp add: demo_png_def demo_mapping_def endsWith_suffix [symmetric] endsWith_def)
  have e3: "find (\<lambda>uf. suffix (originalPath ?m) (name (ufile uf))) [demo_png ''a.txt'', demo_png ''Pack.ZIP''] = None
     \<and> List.map_filter (container_hit demo_loadAsync ?m) [demo_png ''a.txt'', demo_png ''Pack.ZIP''] = [[7, 8]]"
    unfolding endsWith_suffix [symmetric] by code_simp
  have e4: "find (\<lambda>uf. suffix (originalPath ?m2) (name (ufile uf))) [demo_png ''a.txt'', demo_png ''Pack.ZIP''] = None
     \<and> List.map_filter (container_hit demo_loadAsync ?m2) [demo_png ''a.txt'', demo_png ''Pack.ZIP''] = []"
    unfolding endsWith_suffix [symmetric] by code_simp
  note t = asset_resolution_order [of _ _ demo_loadAsync "[]" "[]"]
  from t [of ?m "[demo_png ''icons/sword.png'', demo_png ''sword.png'']"] e1
  have A: "add_mapping demo_loadAsync [demo_png ''icons/sword.png'', demo_png ''sword.png''] ?m ([], [])
     = ([(''t/s.png'', FileData (ufile (demo_png ''sword.png'')))], [])"
    by (simp add: zip_file_def demo_mapping_def)
  from t [of ?m "[demo_png ''icons/sword.png'', demo_png ''ui/sword.png'']"] e2
  have B: "add_mapping demo_loadAsync [demo_png ''icons/sword.png'', demo_png ''ui/sword.png''] ?m ([], [])
     = ([(''t/s.png'', FileData (ufile (demo_png ''icons/sword.png'')))],
        [ambiguity_warning [demo_png ''icons/sword.png'', demo_png ''ui/sword.png''] ?m])"
    by (simp add: zip_file_def demo_mapping_def)
  from t [of ?m "[demo_png ''a.txt'', demo_png ''Pack.ZIP'']"] e3
  have C: "fst (add_mapping demo_loadAsync [demo_png ''a.txt'', demo_png ''Pack.ZIP''] ?m ([], []))
     = [(''t/s.png'', BlobData [7, 8])]"
    by (simp add: zip_file_def demo_mapping_def)
  from t [of ?m2 "[demo_png ''a.txt'', demo_png ''Pack.ZIP'']"] e4
  have D: "fst (add_mapping demo_loadAsync [demo_png ''a.txt'', demo_png ''Pack.ZIP''] ?m2 ([], [])) = []
     \<and> last (snd (add_mapping demo_loadAsync [demo_png ''a.txt'', demo_png ''Pack.ZIP''] ?m2 ([], [])))
       = not_found_warning ?m2"
    by simp
  from A B C D show ?thesis by simp
qed

text \<open>
  C10. The suffix match is a plain string suffix: an uploaded input is among the loose matches
  exactly when its name is \<open>originalPath\<close> with any string, possibly empty, before it, and an
  entry of a container matches exactly when it is not a directory and its name is
  \<open>originalPath\<close> with any string before it. No path separator is required where the match
  starts.
\<close>

theorem suffix_match_is_raw_string_suffix:
  "(uf \<in> set (looseMatches ufs m)) = (uf \<in> set ufs \<and> (\<exists>pre. name (ufile uf) = pre @ originalPath m))
   \<and> entry_matches m e = (\<not> dir e \<and> (\<exists>pre. zname e = pre @ originalPath m))"
  by (auto simp: looseMatches_def entry_matches_def endsWith_suffix suffix_def)

theorem suffix_match_is_raw_string_suffix_witness:
  "demo_png ''sword.png'' \<in> set (looseMatches [demo_png ''bow.png'', demo_png ''sword.png''] (demo_mapping ''word.png'' ''t/w.png''))
   \<and> entry_matches (demo_mapping ''word.png'' ''t/w.png'') (demo_entry ''textures/sword.png'')
   \<and> fst (assemble demo_loadAsync [] [demo_png ''sword.png''] [demo_mapping ''word.png'' ''t/w.png''])
       = [(''t/w.png'', FileData (ufile (demo_png ''sword.png'')))]
   \<and> fst (assemble demo_loadAsync [] [demo_png ''pack.mcpack''] [demo_mapping ''word.png'' ''t/w.png''])
       = [(''t/w.png'', BlobData [7, 8])]"
proof -
  let ?m = "demo_mapping ''word.png'' ''t/w.png''"
  have n1: "name (ufile (demo_png ''sword.png'')) = ''s'' @ originalPath ?m"
    by (simp add: demo_png_def demo_mapping_def)
  have n2: "zname (demo_entry ''textures/sword.png'') = ''textures/s'' @ originalPath ?m
      \<and> \<not> dir (demo_entry ''textures/sword.png'')"
    by (simp add: demo_entry_def demo_mapping_def)
  from suffix_match_is_raw_string_suffix
    [of "demo_png ''sword.png''" "[demo_png ''bow.png'', demo_png ''sword.png'']" ?m "demo_entry ''textures/sword.png''"]
    n1 n2
  have A: "demo_png ''sword.png'' \<in> set (looseMatches [demo_png ''bow.png'', demo_png ''sword.png''] ?m)
     \<and> entry_matches ?m (demo_entry ''textures/sword.png'')"
    by auto
  have B: "fst (assemble demo_loadAsync [] [demo_png ''sword.png''] [?m])
       = [(''t/w.png'', FileData (ufile (demo_png ''sword.png'')))]"
    by code_simp
  have C: "fst (assemble demo_loadAsync [] [demo_png ''pack.mcpack''] [?m]) = [(''t/w.png'', BlobData [7, 8])]"
    by code_simp
  from A B C show ?thesis by simp
qed


section \<open>Claims about archive assembly\<close>

lemma map_filter_append: "List.map_filter f (xs @ ys) = List.map_filter f xs @ List.map_filter f ys"
  by (simp add: map_filter_def)

lemma relocation_writes_keys:
  "(p, d) \<in> set (relocation_writes L ufs ms) \<Longrightarrow> \<exists>m \<in> set ms. newPath m = p \<and> resolve L ufs m = Some d"
  by (induction ms) (auto simp: relocation_writes_def map_filter_simps split: option.splits)

lemma relocation_writes_split:
  assumes "resolve L ufs m = Some d"
  shows "relocation_writes L ufs (ms1 @ m # ms2)
     = relocation_writes L ufs ms1 @ (newPath m, d) # relocation_writes L ufs ms2"
  using assms by (simp add: relocation_writes_def map_filter_append map_filter_simps)

lemma map_of_assemble:
  "map_of (fst (assemble L fs ufs ms)) = map_of (rev (assembly_writes L fs ufs ms))"
  by (simp add: assemble_writes map_of_fold_writes)

lemma distinct_assemble: "distinct (map fst (fst (assemble L fs ufs ms)))"
  by (simp add: assemble_writes distinct_fold_writes)

lemma map_of_rev_last:
  assumes "ws = ws1 @ (p, d) # ws2" "p \<notin> fst ` set ws2"
  shows "map_of (rev ws) p = Some d"
proof -
  from assms(2) have "map_of (rev ws2) p = None" by (simp add: map_of_eq_None_iff)
  with assms(1) show ?thesis by (simp add: map_add_def)
qed

lemma one_entry:
  assumes "distinct (map fst z)" "map_of z p = Some d"
  shows "length (filter (\<lambda>e. fst e = p) z) = 1"
  using assms
proof (induction z)
  case Nil
  then show ?case by simp
next
  case (Cons e z)
  show ?case
  proof (cases "fst e = p")
    case True
    with Cons.prems(1) have "p \<notin> fst ` set z" by auto
    then have "filter (\<lambda>e. fst e = p) z = []" by (auto simp: filter_empty_conv)
    with True show ?thesis by simp
  next
    case False
    with Cons show ?thesis by (cases e) auto
  qed
qed

lemma generated_writes_mem:
  assumes "f \<in> set fs"
  shows "(path f, TextData (content f)) \<in> set (generated_writes fs)"
  unfolding generated_writes_def set_map using assms by (rule imageI)

lemma generated_writes_key:
  assumes "f \<in> set fs"
  shows "path f \<in> fst ` set (generated_writes fs)"
  using generated_writes_mem [OF assms] by (rule image_eqI [rotated]) simp

lemma generated_writes_lookup:
  assumes "f \<in> set fs" "\<forall>g \<in> set fs. path g = path f \<longrightarrow> content g = content f"
  shows "map_of (rev (generated_writes fs)) (path f) = Some (TextData (content f))"
proof -
  from generated_writes_key [OF assms(1)]
  have "path f \<in> fst ` set (rev (generated_writes fs))" by simp
  then have "map_of (rev (generated_writes fs)) (path f) \<noteq> None"
    by (simp only: map_of_eq_None_iff not_not)
  then obtain d where d: "map_of (rev (generated_writes fs)) (path f) = Some d" by blast
  from map_of_SomeD [OF d] have "(path f, d) \<in> set (generated_writes fs)" by simp
  then obtain g where g: "g \<in> set fs" "path g = path f" "d = TextData (content g)"
    unfolding generated_writes_def by auto
  from assms(2) g(1,2) have "content g = content f" by blast
  with d g(3) show ?thesis by simp
qed

lemma generated_writes_lookup_later:
  assumes "\<forall>g \<in> set fs2. path g = path f \<longrightarrow> content g = content f"
  shows "map_of (rev (generated_writes (fs1 @ f # fs2))) (path f) = Some (TextData (content f))"
proof (cases "map_of (rev (generated_writes fs2)) (path f)")
  case None
  then show ?thesis by (simp add: generated_writes_def map_add_def)
next
  case (Some d)
  from map_of_SomeD [OF Some] have "(path f, d) \<in> set (generated_writes fs2)" by simp
  then obtain g where g: "g \<in> set fs2" "path g = path f" "d = TextData (content g)"
    unfolding generated_writes_def by auto
  from assms g(1,2) have "content g = content f" by blast
  with Some g(3) show ?thesis by (simp add: generated_writes_def map_add_def)
qed

text \<open>
  C7 (as amended). For every input, assembly throws only when the serialiser does: if
  \<open>generateAsync\<close> succeeds on the assembled archive, \<open>downloadAddon\<close> completes with the
  download. An instruction that does not resolve is skipped: the archive is the one assembled
  without the unresolved instructions, and the not-found warning of each of them is on the
  console. The archive has an entry at the path of every generated file, and the entry holds
  that file's text verbatim provided no later write replaces it, that is, provided no later
  generated file with that path has another content and no relocation that resolves targets
  that path.
\<close>

theorem unresolved_relocation_nonfatal:
  "(\<forall>b. generateAsync (fst (assemble L fs ufs ms)) = Some b
        \<longrightarrow> fst (downloadAddon L generateAsync n fs ufs ms) = Inr \<lparr>download = n @ ''.mcaddon'', href = b\<rparr>)
   \<and> (\<forall>f \<in> set fs. path f \<in> fst ` set (fst (assemble L fs ufs ms)))
   \<and> (\<forall>f \<in> set fs. (\<forall>g \<in> set fs. path g = path f \<longrightarrow> content g = content f)
                  \<and> (\<forall>m \<in> set ms. newPath m = path f \<longrightarrow> resolve L ufs m = None)
        \<longrightarrow> map_of (fst (assemble L fs ufs ms)) (path f) = Some (TextData (content f)))
   \<and> fst (assemble L fs ufs ms) = fst (assemble L fs ufs (filter (\<lambda>m. resolve L ufs m \<noteq> None) ms))
   \<and> (\<forall>m \<in> set ms. resolve L ufs m = None
        \<longrightarrow> not_found_warning m \<in> set (snd (downloadAddon L generateAsync n fs ufs ms)))
   \<and> (\<forall>fs1 f fs2. fs = fs1 @ f # fs2
          \<and> (\<forall>g \<in> set fs2. path g = path f \<longrightarrow> content g = content f)
          \<and> (\<forall>m \<in> set ms. newPath m = path f \<longrightarrow> resolve L ufs m = None)
        \<longrightarrow> map_of (fst (assemble L fs ufs ms)) (path f) = Some (TextData (content f)))"
proof -
  let ?z = "fst (assemble L fs ufs ms)"
  obtain z c where as: "assemble L fs ufs ms = (z, c)" by (cases "assemble L fs ufs ms") blast
  have a: "\<forall>b. generateAsync ?z = Some b
        \<longrightarrow> fst (downloadAddon L generateAsync n fs ufs ms) = Inr \<lparr>download = n @ ''.mcaddon'', href = b\<rparr>"
    by (simp add: downloadAddon_def as)
  have c: "\<forall>f \<in> set fs. (\<forall>g \<in> set fs. path g = path f \<longrightarrow> content g = content f)
                  \<and> (\<forall>m \<in> set ms. newPath m = path f \<longrightarrow> resolve L ufs m = None)
        \<longrightarrow> map_of ?z (path f) = Some (TextData (content f))"
  proof (intro ballI impI)
    fix f assume f: "f \<in> set fs"
      and h: "(\<forall>g \<in> set fs. path g = path f \<longrightarrow> content g = content f)
                  \<and> (\<forall>m \<in> set ms. newPath m = path f \<longrightarrow> resolve L ufs m = None)"
    have "path f \<notin> fst ` set (relocation_writes L ufs ms)"
    proof
      assume "path f \<in> fst ` set (relocation_writes L ufs ms)"
      then obtain d' where "(path f, d') \<in> set (relocation_writes L ufs ms)" by auto
      from relocation_writes_keys [OF this] h show False by auto
    qed
    then have "map_of (rev (relocation_writes L ufs ms)) (path f) = None"
      by (simp add: map_of_eq_None_iff)
    moreover from h have "\<forall>g \<in> set fs. path g = path f \<longrightarrow> content g = content f" ..
    with f have "map_of (rev (generated_writes fs)) (path f) = Some (TextData (content f))"
      by (rule generated_writes_lookup)
    ultimately show "map_of ?z (path f) = Some (TextData (content f))"
      by (simp add: map_of_assemble assembly_writes_def map_add_def)
  qed
  have b: "\<forall>f \<in> set fs. path f \<in> fst ` set ?z"
  proof
    fix f assume f: "f \<in> set fs"
    from generated_writes_key [OF this]
    have "path f \<in> fst ` set (rev (assembly_writes L fs ufs ms))"
      by (simp add: assembly_writes_def image_Un)
    then have "map_of (rev (assembly_writes L fs ufs ms)) (path f) \<noteq> None"
      by (simp only: map_of_eq_None_iff not_not)
    then have "map_of ?z (path f) \<noteq> None" by (simp add: map_of_assemble)
    then show "path f \<in> fst ` set ?z" by (simp add: map_of_eq_None_iff)
  qed
  have d: "?z = fst (assemble L fs ufs (filter (\<lambda>m. resolve L ufs m \<noteq> None) ms))"
    by (simp only: assemble_writes assembly_writes_def relocation_writes_unresolved)
  have sd: "snd (downloadAddon L generateAsync n fs ufs ms) = snd (assemble L fs ufs ms)"
    by (cases "generateAsync z") (simp_all add: downloadAddon_def as)
  have e: "\<forall>m \<in> set ms. resolve L ufs m = None
        \<longrightarrow> not_found_warning m \<in> set (snd (downloadAddon L generateAsync n fs ufs ms))"
    unfolding sd by (rule assemble_console)
  have g: "\<forall>fs1 f fs2. fs = fs1 @ f # fs2
          \<and> (\<forall>g \<in> set fs2. path g = path f \<longrightarrow> content g = content f)
          \<and> (\<forall>m \<in> set ms. newPath m = path f \<longrightarrow> resolve L ufs m = None)
        \<longrightarrow> map_of ?z (path f) = Some (TextData (content f))"
  proof (intro allI impI)
    fix fs1 f fs2
    assume h: "fs = fs1 @ f # fs2
          \<and> (\<forall>g \<in> set fs2. path g = path f \<longrightarrow> content g = content f)
          \<and> (\<forall>m \<in> set ms. newPath m = path f \<longrightarrow> resolve L ufs m = None)"
    then have fs: "fs = fs1 @ f # fs2"
      and later: "\<forall>g \<in> set fs2. path g = path f \<longrightarrow> content g = content f"
      and un: "\<forall>m \<in> set ms. newPath m = path f \<longrightarrow> resolve L ufs m = None" by simp_all
    have "path f \<notin> fst ` set (relocation_writes L ufs ms)"
    proof
      assume "path f \<in> fst ` set (relocation_writes L ufs ms)"
      then obtain d' where "(path f, d') \<in> set (relocation_writes L ufs ms)" by auto
      from relocation_writes_keys [OF this] un show False by auto
    qed
    then have "map_of (rev (relocation_writes L ufs ms)) (path f) = None"
      by (simp add: map_of_eq_None_iff)
    moreover from later have "map_of (rev (generated_writes fs)) (path f) = Some (TextData (content f))"
      unfolding fs by (rule generated_writes_lookup_later)
    ultimately show "map_of ?z (path f) = Some (TextData (content f))"
      by (simp add: map_of_assemble assembly_writes_def map_add_def)
  qed
  show ?thesis by (rule conjI [OF a conjI [OF b conjI [OF c conjI [OF d conjI [OF e g]]]]])
qed

theorem unresolved_relocation_nonfatal_witness:
  "fst (downloadAddon (\<lambda>f. None) (\<lambda>z. Some [1]) ''My Addon'' [\<lparr>path = ''a/b.json'', content = ''{}''\<rparr>]
          [demo_png ''x.png''] [demo_mapping ''x.png'' ''a/textures/x.png'', demo_mapping ''y.png'' ''a/textures/y.png''])
     = Inr \<lparr>download = ''My Addon.mcaddon'', href = [1]\<rparr>
   \<and> map_of (fst (assemble (\<lambda>f. None) [\<lparr>path = ''a/b.json'', content = ''{}''\<rparr>]
          [demo_png ''x.png''] [demo_mapping ''x.png'' ''a/textures/x.png'', demo_mapping ''y.png'' ''a/textures/y.png'']))
        ''a/b.json'' = Some (TextData ''{}'')
   \<and> not_found_warning (demo_mapping ''y.png'' ''a/textures/y.png'')
       \<in> set (snd (downloadAddon (\<lambda>f. None) (\<lambda>z. Some [1]) ''My Addon'' [\<lparr>path = ''a/b.json'', content = ''{}''\<rparr>]
          [demo_png ''x.png''] [demo_mapping ''x.png'' ''a/textures/x.png'', demo_mapping ''y.png'' ''a/textures/y.png'']))
   \<and> map_of (fst (assemble (\<lambda>f. None)
          [\<lparr>path = ''a/b.json'', content = ''old''\<rparr>, \<lparr>path = ''a/b.json'', content = ''{}''\<rparr>]
          [demo_png ''x.png''] [demo_mapping ''x.png'' ''a/textures/x.png'', demo_mapping ''y.png'' ''a/textures/y.png'']))
        ''a/b.json'' = Some (TextData ''{}'')"
proof -
  let ?L = "\<lambda>f :: File. None :: ZipObject list option"
  let ?G = "\<lambda>z :: archive. Some ([1] :: bytes)"
  let ?f = "\<lparr>path = ''a/b.json'', content = ''{}''\<rparr>"
  let ?ms = "[demo_mapping ''x.png'' ''a/textures/x.png'', demo_mapping ''y.png'' ''a/textures/y.png'']"
  have r: "resolve ?L [demo_png ''x.png''] (demo_mapping ''y.png'' ''a/textures/y.png'') = None"
    by code_simp
  have np: "\<forall>m \<in> set ?ms. newPath m = path ?f \<longrightarrow> resolve ?L [demo_png ''x.png''] m = None"
    by (simp add: demo_mapping_def)
  note t = unresolved_relocation_nonfatal [of ?G ?L "[?f]" "[demo_png ''x.png'']" ?ms "''My Addon''"]
  note t1 = t [THEN conjunct1]
  note t3 = t [THEN conjunct2, THEN conjunct2, THEN conjunct1]
  note t5 = t [THEN conjunct2, THEN conjunct2, THEN conjunct2, THEN conjunct2, THEN conjunct1]
  from t1 have A: "fst (downloadAddon ?L ?G ''My Addon'' [?f] [demo_png ''x.png''] ?ms)
       = Inr \<lparr>download = ''My Addon.mcaddon'', href = [1]\<rparr>"
    by simp
  from t3 np have B: "map_of (fst (assemble ?L [?f] [demo_png ''x.png''] ?ms)) ''a/b.json'' = Some (TextData ''{}'')"
    by simp
  from t5 r have C: "not_found_warning (demo_mapping ''y.png'' ''a/textures/y.png'')
       \<in> set (snd (downloadAddon ?L ?G ''My Addon'' [?f] [demo_png ''x.png''] ?ms))"
    by simp
  let ?o = "\<lparr>path = ''a/b.json'', content = ''old''\<rparr>"
  note u = unresolved_relocation_nonfatal [of ?G ?L "[?o, ?f]" "[demo_png ''x.png'']" ?ms "''My Addon''"]
  note u6 = u [THEN conjunct2, THEN conjunct2, THEN conjunct2, THEN conjunct2, THEN conjunct2]
  have sp: "[?o, ?f] = [?o] @ ?f # [] \<and> (\<forall>g \<in> set []. path g = path ?f \<longrightarrow> content g = content ?f)"
    by simp
  from u6 sp np have "map_of (fst (assemble ?L [?o, ?f] [demo_png ''x.png''] ?ms)) (path ?f)
      = Some (TextData (content ?f))"
    by blast
  then have D: "map_of (fst (assemble ?L [?o, ?f] [demo_png ''x.png''] ?ms)) ''a/b.json'' = Some (TextData ''{}'')"
    by simp
  from A B C D show ?thesis by simp
qed

text \<open>
  C7 as stated fails where it says that every generated file is in the archive verbatim: with one
  instruction that does not resolve and another that resolves onto the path of a generated file,
  the archive holds the relocated asset at that path and the generated text is gone.
\<close>

theorem generated_file_can_be_replaced:
  "resolve (\<lambda>f. None) [demo_png ''x.png''] (demo_mapping ''missing.png'' ''t/m.png'') = None
   \<and> map_of (fst (assemble (\<lambda>f. None) [\<lparr>path = ''a.json'', content = ''{}''\<rparr>] [demo_png ''x.png'']
                    [demo_mapping ''x.png'' ''a.json'', demo_mapping ''missing.png'' ''t/m.png'']))
        ''a.json'' = Some (FileData (ufile (demo_png ''x.png'')))
   \<and> fst (assemble (\<lambda>f. None) [\<lparr>path = ''a.json'', content = ''{}''\<rparr>] [demo_png ''x.png'']
                    [demo_mapping ''x.png'' ''a.json'', demo_mapping ''missing.png'' ''t/m.png''])
       = [(''a.json'', FileData (ufile (demo_png ''x.png'')))]"
  by code_simp

text \<open>
  C8. The archive has one entry per path. The writes are applied in a fixed order, the generated
  files first and the resolved relocations after them; for every path the archive holds the data
  of the last write to that path, in exactly one entry. In particular, when a relocation that
  resolves targets the path of a generated file, and no later resolving relocation targets that
  path, the archive holds the relocated asset at that path and not the generated text.
\<close>

theorem later_write_wins:
  "distinct (map fst (fst (assemble L fs ufs ms)))
   \<and> (\<forall>ws1 p d ws2. assembly_writes L fs ufs ms = ws1 @ (p, d) # ws2 \<and> p \<notin> fst ` set ws2
        \<longrightarrow> map_of (fst (assemble L fs ufs ms)) p = Some d
          \<and> length (filter (\<lambda>e. fst e = p) (fst (assemble L fs ufs ms))) = 1)
   \<and> (\<forall>f m d ms1 ms2. f \<in> set fs \<and> ms = ms1 @ m # ms2 \<and> newPath m = path f
          \<and> resolve L ufs m = Some d
          \<and> (\<forall>m' \<in> set ms2. newPath m' = path f \<longrightarrow> resolve L ufs m' = None)
        \<longrightarrow> map_of (fst (assemble L fs ufs ms)) (path f) = Some d
          \<and> length (filter (\<lambda>e. fst e = path f) (fst (assemble L fs ufs ms))) = 1)"
proof -
  let ?z = "fst (assemble L fs ufs ms)"
  have general: "\<And>ws1 p d ws2. assembly_writes L fs ufs ms = ws1 @ (p, d) # ws2 \<Longrightarrow> p \<notin> fst ` set ws2
        \<Longrightarrow> map_of ?z p = Some d \<and> length (filter (\<lambda>e. fst e = p) ?z) = 1"
  proof -
    fix ws1 p d ws2
    assume "assembly_writes L fs ufs ms = ws1 @ (p, d) # ws2" "p \<notin> fst ` set ws2"
    then have "map_of ?z p = Some d"
      unfolding map_of_assemble by (rule map_of_rev_last)
    with one_entry [OF distinct_assemble, of L fs ufs ms p d]
    show "map_of ?z p = Some d \<and> length (filter (\<lambda>e. fst e = p) ?z) = 1" by simp
  qed
  have example: "\<And>f m d ms1 ms2. f \<in> set fs \<and> ms = ms1 @ m # ms2 \<and> newPath m = path f
          \<and> resolve L ufs m = Some d
          \<and> (\<forall>m' \<in> set ms2. newPath m' = path f \<longrightarrow> resolve L ufs m' = None)
        \<Longrightarrow> map_of ?z (path f) = Some d \<and> length (filter (\<lambda>e. fst e = path f) ?z) = 1"
  proof -
    fix f m d ms1 ms2
    assume a: "f \<in> set fs \<and> ms = ms1 @ m # ms2 \<and> newPath m = path f
          \<and> resolve L ufs m = Some d
          \<and> (\<forall>m' \<in> set ms2. newPath m' = path f \<longrightarrow> resolve L ufs m' = None)"
    then have w: "assembly_writes L fs ufs ms
        = (generated_writes fs @ relocation_writes L ufs ms1) @ (path f, d) # relocation_writes L ufs ms2"
      by (simp add: assembly_writes_def relocation_writes_split)
    have "path f \<notin> fst ` set (relocation_writes L ufs ms2)"
    proof
      assume "path f \<in> fst ` set (relocation_writes L ufs ms2)"
      then obtain d' where "(path f, d') \<in> set (relocation_writes L ufs ms2)" by auto
      from relocation_writes_keys [OF this] a show False by auto
    qed
    from general [OF w this]
    show "map_of ?z (path f) = Some d \<and> length (filter (\<lambda>e. fst e = path f) ?z) = 1" .
  qed
  from distinct_assemble [of L fs ufs ms] general example show ?thesis by blast
qed

theorem later_write_wins_witness:
  "map_of (fst (assemble demo_loadAsync [\<lparr>path = ''a.json'', content = ''{}''\<rparr>] [demo_png ''x.png'']
                  [demo_mapping ''x.png'' ''a.json'']))
        ''a.json'' = Some (FileData (ufile (demo_png ''x.png'')))
   \<and> length (filter (\<lambda>e. fst e = ''a.json'')
         (fst (assemble demo_loadAsync [\<lparr>path = ''a.json'', content = ''{}''\<rparr>] [demo_png ''x.png'']
                  [demo_mapping ''x.png'' ''a.json'']))) = 1"
proof -
  let ?f = "\<lparr>path = ''a.json'', content = ''{}''\<rparr>"
  let ?m = "demo_mapping ''x.png'' ''a.json''"
  have r: "resolve demo_loadAsync [demo_png ''x.png''] ?m = Some (FileData (ufile (demo_png ''x.png'')))"
    by (simp add: resolve_def demo_png_def demo_mapping_def)
  have h: "?f \<in> set [?f] \<and> [?m] = [] @ ?m # [] \<and> newPath ?m = path ?f
      \<and> resolve demo_loadAsync [demo_png ''x.png''] ?m = Some (FileData (ufile (demo_png ''x.png'')))
      \<and> (\<forall>m' \<in> set []. newPath m' = path ?f \<longrightarrow> resolve demo_loadAsync [demo_png ''x.png''] m' = None)"
    using r by (simp add: demo_mapping_def)
  from later_write_wins [of demo_loadAsync "[?f]" "[demo_png ''x.png'']" "[?m]"] h
  have "map_of (fst (assemble demo_loadAsync [?f] [demo_png ''x.png''] [?m])) (path ?f)
          = Some (FileData (ufile (demo_png ''x.png'')))
      \<and> length (filter (\<lambda>e. fst e = path ?f) (fst (assemble demo_loadAsync [?f] [demo_png ''x.png''] [?m]))) = 1"
    by blast
  then show ?thesis by simp
qed


section \<open>Claims about the file name of the download\<close>

lemma of_char_lt: "(of_char c :: nat) < 256"
proof -
  have "of_char (char_of (of_char c :: nat)) = (of_char c :: nat) mod 256"
    by (rule of_char_of)
  then have "(of_char c :: nat) = of_char c mod 256" by simp
  moreover have "(of_char c :: nat) mod 256 < 256" by simp
  ultimately show ?thesis by simp
qed

lemma lower_letters: "map char_of [97..<123::nat] = ''abcdefghijklmnopqrstuvwxyz''" by code_simp

lemma upper_letters: "map char_of [65..<91::nat] = ''ABCDEFGHIJKLMNOPQRSTUVWXYZ''" by code_simp

lemma digit_chars: "map char_of [48..<58::nat] = ''0123456789''" by code_simp

lemma class_allowed: "list_all allowed_char name_class" by code_simp

lemma class_spaces: "list_all (\<lambda>c. isSpace c = (c = CHR '' '')) name_class" by code_simp

lemma char_in_range:
  assumes "lo \<le> (of_char c :: nat)" "(of_char c :: nat) < hi"
  shows "c \<in> set (map char_of [lo..<hi])"
proof -
  from assms have "(of_char c :: nat) \<in> set [lo..<hi]" by simp
  then have "char_of (of_char c :: nat) \<in> char_of ` set [lo..<hi]" by (rule imageI)
  then show ?thesis by simp
qed

lemma allowed_char_class: "allowed_char c = (c \<in> set name_class)"
proof
  assume a: "allowed_char c"
  let ?n = "of_char c :: nat"
  from a consider "97 \<le> ?n \<and> ?n < 123" | "65 \<le> ?n \<and> ?n < 91" | "48 \<le> ?n \<and> ?n < 58"
    | "c = CHR ''_'' \<or> c = CHR '' '' \<or> c = CHR ''-''"
    unfolding allowed_char_def Let_def by fastforce
  then show "c \<in> set name_class"
  proof cases
    case 1
    then have "c \<in> set (map char_of [97..<123::nat])" by (intro char_in_range) simp_all
    then show ?thesis unfolding lower_letters name_class_def set_append by blast
  next
    case 2
    then have "c \<in> set (map char_of [65..<91::nat])" by (intro char_in_range) simp_all
    then show ?thesis unfolding upper_letters name_class_def set_append by blast
  next
    case 3
    then have "c \<in> set (map char_of [48..<58::nat])" by (intro char_in_range) simp_all
    then show ?thesis unfolding digit_chars name_class_def set_append by blast
  next
    case 4
    then show ?thesis unfolding name_class_def by auto
  qed
next
  assume "c \<in> set name_class"
  with class_allowed show "allowed_char c" by (simp add: list_all_iff)
qed

lemma allowed_space: "allowed_char c \<Longrightarrow> isSpace c = (c = CHR '' '')"
  using class_spaces by (simp add: allowed_char_class list_all_iff)

lemma dropWhile_space_cong:
  assumes "\<forall>c \<in> set s. allowed_char c"
  shows "dropWhile isSpace s = dropWhile (\<lambda>c. c = CHR '' '') s"
  using assms by (intro dropWhile_cong) (simp_all add: allowed_space)

lemma trim_allowed:
  assumes "\<forall>c \<in> set s. allowed_char c"
  shows "trim s = strip_spaces s"
proof -
  have 1: "dropWhile isSpace s = dropWhile (\<lambda>c. c = CHR '' '') s"
    using assms by (rule dropWhile_space_cong)
  have "\<forall>c \<in> set (rev (dropWhile (\<lambda>c. c = CHR '' '') s)). allowed_char c"
    using assms set_dropWhileD [of _ "\<lambda>c. c = CHR '' ''" s] by auto
  then have 2: "dropWhile isSpace (rev (dropWhile (\<lambda>c. c = CHR '' '') s))
      = dropWhile (\<lambda>c. c = CHR '' '') (rev (dropWhile (\<lambda>c. c = CHR '' '') s))"
    by (rule dropWhile_space_cong)
  show ?thesis unfolding trim_def strip_spaces_def 1 2 ..
qed

lemma stripped_name_filter: "stripped_name n = filter allowed_char n"
  unfolding stripped_name_def by (rule filter_cong) (simp_all add: allowed_char_class)

lemma safeAddonName_spec:
  "safeAddonName n
     = (if strip_spaces (stripped_name n) = [] then ''addon'' else strip_spaces (stripped_name n))"
proof -
  have "trim (filter allowed_char n) = strip_spaces (filter allowed_char n)"
    by (rule trim_allowed) simp
  then show ?thesis by (simp add: safeAddonName_def stripped_name_filter Let_def)
qed

lemma strip_spaces_subset: "set (strip_spaces s) \<subseteq> set s"
proof
  fix c assume "c \<in> set (strip_spaces s)"
  then have "c \<in> set (dropWhile (\<lambda>c. c = CHR '' '') (rev (dropWhile (\<lambda>c. c = CHR '' '') s)))"
    by (simp add: strip_spaces_def)
  then have "c \<in> set (rev (dropWhile (\<lambda>c. c = CHR '' '') s))" by (rule set_dropWhileD)
  then have "c \<in> set (dropWhile (\<lambda>c. c = CHR '' '') s)" by simp
  then show "c \<in> set s" by (rule set_dropWhileD)
qed

lemma strip_spaces_ends:
  assumes ne: "strip_spaces s \<noteq> []"
  shows "hd (strip_spaces s) \<noteq> CHR '' '' \<and> last (strip_spaces s) \<noteq> CHR '' ''"
proof -
  define a where "a = dropWhile (\<lambda>c. c = CHR '' '') s"
  define b where "b = dropWhile (\<lambda>c. c = CHR '' '') (rev a)"
  have ss: "strip_spaces s = rev b" by (simp add: strip_spaces_def a_def b_def)
  with ne have b: "b \<noteq> []" by simp
  have hb: "hd b \<noteq> CHR '' ''"
    using b hd_dropWhile [of "\<lambda>c. c = CHR '' ''" "rev a"] unfolding b_def by blast
  have a: "a \<noteq> []"
  proof
    assume "a = []"
    then have "b = []" unfolding b_def by simp
    with b show False by blast
  qed
  have ha: "hd a \<noteq> CHR '' ''"
    using a hd_dropWhile [of "\<lambda>c. c = CHR '' ''" s] unfolding a_def by blast
  have "rev a = takeWhile (\<lambda>c. c = CHR '' '') (rev a) @ b"
    unfolding b_def by (rule takeWhile_dropWhile_id [symmetric])
  then have "rev (rev a) = rev (takeWhile (\<lambda>c. c = CHR '' '') (rev a) @ b)" by (rule arg_cong)
  then have "a = rev b @ rev (takeWhile (\<lambda>c. c = CHR '' '') (rev a))" by simp
  then have "hd a = hd (rev b @ rev (takeWhile (\<lambda>c. c = CHR '' '') (rev a)))" by (rule arg_cong)
  also have "\<dots> = hd (rev b)" using b by simp
  finally have "hd (rev b) \<noteq> CHR '' ''" using ha by simp
  moreover have "last (rev b) = hd b" using b by (simp add: last_rev)
  ultimately show ?thesis unfolding ss using hb by simp
qed

text \<open>
  C9 (as amended). In \<open>downloadMcaddonFromZips\<close> the file name of the download is the addon
  name with every character outside \<open>[A-Za-z0-9_ -]\<close> stripped and the leading and trailing
  spaces then removed, or \<open>addon\<close> when nothing is left, followed by \<open>.mcaddon\<close>. The stem
  is never empty, has only characters of the class, and neither starts nor ends with a space.
\<close>

theorem mcaddon_filename_sanitized:
  "(\<forall>link. downloadMcaddonFromZips generateAsync n rp bp = Inr link
        \<longrightarrow> download link = safeAddonName n @ ''.mcaddon'')
   \<and> safeAddonName n
       = (if strip_spaces (stripped_name n) = [] then ''addon'' else strip_spaces (stripped_name n))
   \<and> set (safeAddonName n) \<subseteq> set name_class
   \<and> safeAddonName n \<noteq> []
   \<and> hd (safeAddonName n) \<noteq> CHR '' '' \<and> last (safeAddonName n) \<noteq> CHR '' ''"
proof -
  have a: "\<forall>link. downloadMcaddonFromZips generateAsync n rp bp = Inr link
        \<longrightarrow> download link = safeAddonName n @ ''.mcaddon''"
    by (auto simp: downloadMcaddonFromZips_def Let_def split: option.splits)
  have sub: "set (strip_spaces (stripped_name n)) \<subseteq> set name_class"
    using strip_spaces_subset [of "stripped_name n"] by (auto simp: stripped_name_def)
  have d: "set ''addon'' \<subseteq> set name_class" unfolding name_class_def set_append by auto
  have c: "set (safeAddonName n) \<subseteq> set name_class"
    unfolding safeAddonName_spec using sub d by (simp only: split: if_split) simp
  have e: "safeAddonName n \<noteq> []" unfolding safeAddonName_spec by simp
  have f: "hd (safeAddonName n) \<noteq> CHR '' '' \<and> last (safeAddonName n) \<noteq> CHR '' ''"
    unfolding safeAddonName_spec using strip_spaces_ends [of "stripped_name n"] by simp
  show ?thesis by (rule conjI [OF a conjI [OF safeAddonName_spec conjI [OF c conjI [OF e f]]]])
qed

theorem mcaddon_filename_sanitized_witness:
  "downloadMcaddonFromZips (\<lambda>z. Some [1]) '' My/Addon! '' None None
      = Inr \<lparr>download = safeAddonName '' My/Addon! '' @ ''.mcaddon'', href = [1]\<rparr>
   \<and> safeAddonName '' My/Addon! '' = ''MyAddon''
   \<and> safeAddonName ''  !! '' = ''addon''"
proof -
  have r: "downloadMcaddonFromZips (\<lambda>z. Some [1]) '' My/Addon! '' None None
      = Inr \<lparr>download = ''MyAddon.mcaddon'', href = [1]\<rparr>"
    by code_simp
  have s1: "strip_spaces (stripped_name '' My/Addon! '') = ''MyAddon''" by code_simp
  have s2: "strip_spaces (stripped_name ''  !! '') = []" by code_simp
  note t = mcaddon_filename_sanitized [of "\<lambda>z. Some [1]" "'' My/Addon! ''" None None]
  note u = mcaddon_filename_sanitized [of "\<lambda>z. Some [1]" "''  !! ''" None None]
  from t [THEN conjunct1] r have "''MyAddon.mcaddon'' = safeAddonName '' My/Addon! '' @ ''.mcaddon''"
    by simp
  with r have A: "downloadMcaddonFromZips (\<lambda>z. Some [1]) '' My/Addon! '' None None
      = Inr \<lparr>download = safeAddonName '' My/Addon! '' @ ''.mcaddon'', href = [1]\<rparr>"
    by simp
  from t [THEN conjunct2, THEN conjunct1] s1 have B: "safeAddonName '' My/Addon! '' = ''MyAddon''" by simp
  from u [THEN conjunct2, THEN conjunct1] s2 have C: "safeAddonName ''  !! '' = ''addon''" by simp
  from A B C show ?thesis by simp
qed

text \<open>
  C9 as stated fails on both download paths. \<open>downloadMcaddonFromZips\<close> also trims: the name
  \<open>" a"\<close> gives \<open>a.mcaddon\<close>, not \<open>" a.mcaddon"\<close>. \<open>downloadAddon\<close> strips nothing: the name
  \<open>a/b\<close> gives \<open>a/b.mcaddon\<close>.
\<close>

theorem filename_not_as_claimed:
  "downloadMcaddonFromZips (\<lambda>z. Some []) '' a'' None None = Inr \<lparr>download = ''a.mcaddon'', href = []\<rparr>
   \<and> claimed_filename '' a'' = '' a.mcaddon''
   \<and> fst (downloadAddon (\<lambda>f. None) (\<lambda>z. Some []) ''a/b'' [] [] []) = Inr \<lparr>download = ''a/b.mcaddon'', href = []\<rparr>
   \<and> claimed_filename ''a/b'' = ''ab.mcaddon''"
  by code_simp


end
